theory Spec2Isabelle
  imports Complex_Main "HOL-Library.Multiset"
begin

section \<open>Values of the SDK and of the standard library\<close>

text \<open>
  The program moves a wallet's holdings to a receiver in four phases. Everything it does
  to the outside goes through the mixin SDK, the mixinnet key library, the operating
  system, \<open>encoding/json\<close>, \<open>net/http\<close>, \<open>cast\<close> and \<open>promptui\<close>. None of these is part
  of the repository, so each of their operations is a field of the record \<open>sdk\<close> below and
  the program is modelled over an arbitrary such record. The types they declare are
  modelled by the fields the program reads or writes; types the program only passes
  around are type parameters:
  \<^item> \<open>'w\<close> the state of the outside world (ledger, network, terminal, random source);
  \<^item> \<open>'k\<close> the embedded \<open>mixin.Keystore\<close>;
  \<^item> \<open>'key\<close> \<open>mixinnet.Key\<close>;
  \<^item> \<open>'tx\<close> the transaction built by \<open>MakeTransaction\<close>;
  \<^item> \<open>'addr\<close> \<open>mixin.MixAddress\<close>.
\<close>

text \<open>
  \<open>decimal.Decimal\<close> is an exact, signed, arbitrary-precision decimal; \<open>Add\<close> is exact
  and \<open>IsZero\<close> tests the value. Every such decimal is a rational number, and the
  program only adds decimals and tests them for zero, so they are modelled as \<open>rat\<close>.
  The zero value of the type (\<open>var sum decimal.Decimal\<close>) is 0.
\<close>

type_synonym decimal = rat

text \<open>
  Field names are the SDK's. Where two structs have a field of the same name the second
  one carries its struct in the name (\<open>TransferAssetID\<close>, \<open>TransferAmount\<close>, \<open>TransferMemo\<close>
  of \<open>TransferInput\<close>; \<open>UtxoAssetID\<close>; \<open>OutputAmount\<close>; \<open>ReqRequestID\<close>; \<open>SafeSymbol\<close>),
  and \<open>runner.output\<close> is \<open>output_path\<close>. Slices of pointers are lists of records: the
  program never compares or shares the pointers, and the SDK returns no nil element.
\<close>

text \<open>
  Arguments of \<open>log\<close> and \<open>fmt.Errorf\<close> calls. A log line or an error is its format (for
  \<open>Println\<close>, its leading string; the newline that ends a \<open>Printf\<close> format is left out)
  with the values of its arguments.
\<close>

datatype fmtarg = S string | D decimal | I int

text \<open>
  Errors: \<open>External\<close> is an error value returned by a collaborator,
  \<open>Errorf fmt args e\<close> is \<open>fmt.Errorf(fmt, args..., e)\<close> wrapping \<open>e\<close> with \<open>%w\<close>, and
  \<open>Panic\<close> is a run-time panic.
\<close>

datatype error = External string | Errorf string "fmtarg list" error | Panic string

record 'k Keystore =
  Embedded :: 'k
  Pin :: string
  SpendKey :: string

record Asset =
  AssetID :: string
  Balance :: decimal
  Symbol :: string

record User =
  UserID :: string
  IdentityNumber :: string
  FullName :: string

record TransferInput =
  TransferAssetID :: string
  OpponentID :: string
  TransferAmount :: decimal
  TraceID :: string
  TransferMemo :: string

record Snapshot =
  SnapshotID :: string

text \<open>
  \<open>Sequence\<close> and \<open>Offset\<close> are \<open>uint64\<close> in the SDK. They are natural numbers here, the
  values of a \<open>uint64\<close> being those below \<open>2^64\<close>, and the one addition the program makes on
  them, \<open>utxo.Sequence + 1\<close>, is taken modulo \<open>2^64\<close>, as Go's unsigned addition wraps.
\<close>

record SafeUtxo =
  UtxoAssetID :: string
  Amount :: decimal
  Sequence :: nat

record SafeListUtxoOption =
  Offset :: nat
  Limit :: nat
  Order :: string
  State :: string

record SafeAsset =
  SafeSymbol :: string

record SafeTransactionBuilder =
  Inputs :: "SafeUtxo list"
  Memo :: string
  Hint :: string

record 'addr TransactionOutput =
  Address :: 'addr
  OutputAmount :: decimal

record SafeTransactionRequestInput =
  RequestID :: string
  RawTransaction :: string

record SafeTransactionRequest =
  ReqRequestID :: string
  Views :: "string list"

record osfile =
  content :: string
  perm :: nat

section \<open>The collaborators\<close>

text \<open>
  A function with the world as its last argument reaches the outside (ledger, network,
  terminal, random source) and returns the world it leaves; the others are local
  computations of the libraries. \<open>NewFromKeystore\<close> returns the client's \<open>ClientID\<close>, the
  one field of the client the program reads. \<open>RequireNewMixAddress\<close> panics where it
  returns \<open>None\<close>. \<open>HttpGetUser\<close> is \<open>http.Get\<close> followed by the decoding of the body's
  \<open>data\<close> field. \<open>MapOrder\<close> is the order in which \<open>range\<close> visits the entries of the map
  of assets, which Go leaves open. \<open>MayRead\<close> and \<open>MayWrite\<close> are the operating system's
  access checks on a file's permission bits.
\<close>

record ('w, 'k, 'key, 'tx, 'addr) sdk =
  NewFromKeystore :: "'k \<Rightarrow> error + string"
  ReadAssets :: "'w \<Rightarrow> (error + Asset list) \<times> 'w"
  Transfer :: "TransferInput \<Rightarrow> string \<Rightarrow> 'w \<Rightarrow> (error + Snapshot) \<times> 'w"
  RandomTraceID :: "'w \<Rightarrow> string \<times> 'w"
  ModifyPin :: "string \<Rightarrow> string \<Rightarrow> 'w \<Rightarrow> error option \<times> 'w"
  SafeMigrate :: "string \<Rightarrow> string \<Rightarrow> 'w \<Rightarrow> error option \<times> 'w"
  SafeListUtxos :: "SafeListUtxoOption \<Rightarrow> 'w \<Rightarrow> (error + SafeUtxo list) \<times> 'w"
  SafeReadAsset :: "string \<Rightarrow> 'w \<Rightarrow> (error + SafeAsset) \<times> 'w"
  NewSafeTransactionBuilder :: "SafeUtxo list \<Rightarrow> 'w \<Rightarrow> SafeTransactionBuilder \<times> 'w"
  RequireNewMixAddress :: "string list \<Rightarrow> nat \<Rightarrow> 'addr option"
  MakeTransaction ::
    "SafeTransactionBuilder \<Rightarrow> 'addr TransactionOutput list \<Rightarrow> 'w \<Rightarrow> (error + 'tx) \<times> 'w"
  Dump :: "'tx \<Rightarrow> error + string"
  SafeCreateTransactionRequest ::
    "SafeTransactionRequestInput \<Rightarrow> 'w \<Rightarrow> (error + SafeTransactionRequest) \<times> 'w"
  SafeSignTransaction :: "'tx \<Rightarrow> 'key \<Rightarrow> string list \<Rightarrow> nat \<Rightarrow> error + 'tx"
  SafeSubmitTransactionRequest ::
    "SafeTransactionRequestInput \<Rightarrow> 'w \<Rightarrow> (error + SafeTransactionRequest) \<times> 'w"
  KeyFromString :: "string \<Rightarrow> error + 'key"
  GenerateKey :: "'w \<Rightarrow> 'key \<times> 'w"
  KeyString :: "'key \<Rightarrow> string"
  KeyPublic :: "'key \<Rightarrow> 'key"
  ToInt64 :: "string \<Rightarrow> int"
  HttpGetUser :: "string \<Rightarrow> 'w \<Rightarrow> (error + User) \<times> 'w"
  PromptRun :: "'w \<Rightarrow> (error + string) \<times> 'w"
  MapOrder :: "(string \<times> SafeUtxo list) list \<Rightarrow> (string \<times> SafeUtxo list) list"
  JsonEncode :: "'k Keystore \<Rightarrow> error + string"
  JsonDecode :: "string \<Rightarrow> error + 'k Keystore"
  MayRead :: "nat \<Rightarrow> bool"
  MayWrite :: "nat \<Rightarrow> bool"

section \<open>The run state\<close>

text \<open>
  Every call to a collaborator, every file operation and every log line is appended to a
  trace, in the order the program performs them. The trace is the only addition of the
  model to the program's data: it makes "no call was made" and "this call came before
  that one" statements about a value.
\<close>

datatype 'addr event =
    Log string "fmtarg list"
  | OsOpen string
  | OsOpenFile string
  | OsWrite string string
  | CallHttpGet string
  | CallPromptRun
  | CallReadAssets
  | CallRandomTraceID
  | CallTransfer TransferInput string
  | CallGenerateKey
  | CallModifyPin string string
  | CallSafeMigrate string string
  | CallSafeListUtxos SafeListUtxoOption
  | CallSafeReadAsset string
  | CallNewSafeTransactionBuilder "SafeUtxo list"
  | CallMakeTransaction SafeTransactionBuilder "'addr TransactionOutput list"
  | CallSafeCreateTransactionRequest SafeTransactionRequestInput
  | CallSafeSignTransaction "string list" nat
  | CallSafeSubmitTransactionRequest SafeTransactionRequestInput

text \<open>
  \<open>sys\<close> is what the program reaches outside its own variables: the world behind the
  SDK client, the file system, and the trace. \<open>runner\<close> is the struct of the same name
  on top of it. \<open>r.key\<close> is a pointer to the one keystore record of the run, so an
  assignment to \<open>r.key.Pin\<close> is an update of the field \<open>key\<close>.
\<close>

record ('w, 'addr) sys =
  world :: 'w
  files :: "string \<Rightarrow> osfile option"
  trace :: "'addr event list"

record ('w, 'k, 'addr) runner = "('w, 'addr) sys" +
  key :: "'k Keystore"
  output_path :: string
  receiver :: string

definition emit :: "'addr event \<Rightarrow> ('w, 'addr, 'z) sys_scheme \<Rightarrow> ('w, 'addr, 'z) sys_scheme" where
  "emit e r = r\<lparr>trace := trace r @ [e]\<rparr>"

definition logln :: "string \<Rightarrow> fmtarg list \<Rightarrow> ('w, 'addr, 'z) sys_scheme \<Rightarrow> ('w, 'addr, 'z) sys_scheme" where
  "logln msg args r = emit (Log msg args) r"

text \<open>A call of a collaborator that reads and changes the world: record it, then run it.\<close>

definition call ::
  "'addr event \<Rightarrow> ('w \<Rightarrow> 'a \<times> 'w) \<Rightarrow> ('w, 'addr, 'z) sys_scheme \<Rightarrow> 'a \<times> ('w, 'addr, 'z) sys_scheme" where
  "call e f r = (case f (world r) of (res, w) \<Rightarrow> (res, (emit e r)\<lparr>world := w\<rparr>))"

section \<open>keystore.go and saveKeystore\<close>

text \<open>
  \<open>os.Open\<close> and \<open>os.OpenFile(path, os.O_WRONLY, 0777)\<close>. The flags of the second hold
  neither \<open>O_CREATE\<close> nor \<open>O_TRUNC\<close>: a missing file is an error, the mode argument is
  not used, and the file keeps its length and its permission bits when it is opened.
  Whether the process may read or write a file is the operating system's decision from
  the file's permission bits (\<open>MayRead\<close>, \<open>MayWrite\<close>).
\<close>

definition os_Open ::
  "('w, 'k, 'key, 'tx, 'addr) sdk \<Rightarrow> string \<Rightarrow> ('w, 'addr, 'z) sys_scheme
    \<Rightarrow> (error + osfile) \<times> ('w, 'addr, 'z) sys_scheme" where
  "os_Open c path s =
     (let s1 = emit (OsOpen path) s in
      case files s path of
        None \<Rightarrow> (Inl (External ''no such file or directory''), s1)
      | Some f \<Rightarrow>
          if MayRead c (perm f) then (Inr f, s1) else (Inl (External ''permission denied''), s1))"

definition os_OpenFile_WRONLY ::
  "('w, 'k, 'key, 'tx, 'addr) sdk \<Rightarrow> string \<Rightarrow> ('w, 'addr, 'z) sys_scheme
    \<Rightarrow> (error + osfile) \<times> ('w, 'addr, 'z) sys_scheme" where
  "os_OpenFile_WRONLY c path s =
     (let s1 = emit (OsOpenFile path) s in
      case files s path of
        None \<Rightarrow> (Inl (External ''no such file or directory''), s1)
      | Some f \<Rightarrow>
          if MayWrite c (perm f) then (Inr f, s1) else (Inl (External ''permission denied''), s1))"

text \<open>
  A write through a descriptor opened without \<open>O_TRUNC\<close> and without \<open>O_APPEND\<close> starts at
  offset 0 and replaces as many bytes as it writes; bytes of the old content beyond that
  stay. The encoder writes its whole output in one \<open>Write\<close>. Storage failures during the
  write are outside the model.
\<close>

definition os_Write :: "string \<Rightarrow> string \<Rightarrow> ('w, 'addr, 'z) sys_scheme \<Rightarrow> ('w, 'addr, 'z) sys_scheme" where
  "os_Write path data s =
     (case files s path of
        None \<Rightarrow> emit (OsWrite path data) s
      | Some f \<Rightarrow>
          (emit (OsWrite path data) s)
            \<lparr>files := (files s)(path \<mapsto> f\<lparr>content := data @ drop (length data) (content f)\<rparr>)\<rparr>)"

text \<open>
  \<open>JsonDecode\<close> is \<open>json.NewDecoder(f).Decode(&key)\<close> on a stream holding the given bytes;
  \<open>JsonEncode\<close> is what \<open>Encode\<close> with the indentation set hands to \<open>Write\<close>.
\<close>

definition loadKeystore ::
  "('w, 'k, 'key, 'tx, 'addr) sdk \<Rightarrow> string \<Rightarrow> ('w, 'addr, 'z) sys_scheme
    \<Rightarrow> (error + 'k Keystore) \<times> ('w, 'addr, 'z) sys_scheme" where
  "loadKeystore c path s =
     (case os_Open c path s of
        (Inl err, s1) \<Rightarrow> (Inl err, s1)
      | (Inr f, s1) \<Rightarrow>
          (case JsonDecode c (content f) of
             Inl err \<Rightarrow> (Inl err, s1)
           | Inr k \<Rightarrow> (Inr k, s1)))"

definition saveKeystore ::
  "('w, 'k, 'key, 'tx, 'addr) sdk \<Rightarrow> ('w, 'k, 'addr) runner \<Rightarrow> error option \<times> ('w, 'k, 'addr) runner" where
  "saveKeystore c r =
     (case os_OpenFile_WRONLY c (output_path r) r of
        (Inl err, r1) \<Rightarrow> (Some (Errorf ''open keystore failed: %w'' [] err), r1)
      | (Inr f, r1) \<Rightarrow>
          (case JsonEncode c (key r1) of
             Inl err \<Rightarrow> (Some (Errorf ''save keystore failed: %w'' [] err), r1)
           | Inr data \<Rightarrow> (None, os_Write (output_path r1) data r1)))"

section \<open>Phase 1: migrateLegacyAssets\<close>

text \<open>
  The first loop compacts the slice in place: iteration \<open>i\<close> reads element \<open>i\<close> of the
  shared array and, unless its balance is zero, stores it at \<open>idx\<close>. Afterwards the slice
  is cut to \<open>assets[:idx]\<close>.
\<close>

definition compact_step :: "nat \<Rightarrow> Asset list \<times> nat \<Rightarrow> Asset list \<times> nat" where
  "compact_step i st =
     (case st of (assets, idx) \<Rightarrow>
        (let asset = assets ! i in
         if Balance asset = 0 then (assets, idx) else (assets[idx := asset], idx + 1)))"

definition compact :: "Asset list \<Rightarrow> Asset list" where
  "compact assets =
     (case fold compact_step [0..<length assets] (assets, 0) of
        (assets', idx) \<Rightarrow> take idx assets')"

fun transfer_loop ::
  "('w, 'k, 'key, 'tx, 'addr) sdk \<Rightarrow> Asset list \<Rightarrow> ('w, 'k, 'addr) runner
    \<Rightarrow> error option \<times> ('w, 'k, 'addr) runner" where
  "transfer_loop c [] r = (None, r)"
| "transfer_loop c (asset # rest) r =
     (let r1 = logln ''migrating legacy asset'' [D (Balance asset), S (Symbol asset)] r in
      case call CallRandomTraceID (RandomTraceID c) r1 of (trace_id, r2) \<Rightarrow>
      (let t = \<lparr>TransferAssetID = AssetID asset, OpponentID = receiver r2,
                 TransferAmount = Balance asset, TraceID = trace_id,
                 TransferMemo = ''migrate by mixin-migrate''\<rparr> in
       case call (CallTransfer t (Pin (key r2))) (Transfer c t (Pin (key r2))) r2 of
         (Inl err, r3) \<Rightarrow>
           (Some (Errorf ''transfer %s %s failed: %w'' [D (Balance asset), S (Symbol asset)] err), r3)
       | (Inr snapshot, r3) \<Rightarrow>
           transfer_loop c rest
             (logln ''migrated legacy asset''
                [D (Balance asset), S (Symbol asset), S ''snapshot'', S (SnapshotID snapshot)] r3)))"

definition migrateLegacyAssets ::
  "('w, 'k, 'key, 'tx, 'addr) sdk \<Rightarrow> ('w, 'k, 'addr) runner \<Rightarrow> error option \<times> ('w, 'k, 'addr) runner" where
  "migrateLegacyAssets c r =
     (case call CallReadAssets (ReadAssets c) r of
        (Inl err, r1) \<Rightarrow> (Some (Errorf ''list legacy assets failed: %w'' [] err), r1)
      | (Inr assets0, r1) \<Rightarrow>
          (let assets = compact assets0 in
           if length assets = 0 then (None, logln ''no legacy assets'' [] r1)
           else
             (case transfer_loop c assets
                     (logln ''start migrating %d legacy assets'' [I (int (length assets))] r1) of
                (Some err, r2) \<Rightarrow> (Some err, r2)
              | (None, r2) \<Rightarrow> (None, logln ''migrate legacy assets done'' [] r2))))"

section \<open>Phases 2 and 3: updateTipPin and migrateToSafe\<close>

definition updateTipPin ::
  "('w, 'k, 'key, 'tx, 'addr) sdk \<Rightarrow> ('w, 'k, 'addr) runner \<Rightarrow> error option \<times> ('w, 'k, 'addr) runner" where
  "updateTipPin c r =
     (case KeyFromString c (Pin (key r)) of
        Inr _ \<Rightarrow> (None, logln ''updated to tip pin already'' [] r)
      | Inl _ \<Rightarrow>
          (let r1 = logln ''start update tip pin'' [] r in
           case call CallGenerateKey (GenerateKey c) r1 of (k, r2) \<Rightarrow>
           (let r3 = logln ''new pin:'' [S (KeyString c k)] r2 in
            case call (CallModifyPin (Pin (key r3)) (KeyString c (KeyPublic c k)))
                      (ModifyPin c (Pin (key r3)) (KeyString c (KeyPublic c k))) r3 of
              (Some err, r4) \<Rightarrow> (Some (Errorf ''modify pin failed: %w'' [] err), r4)
            | (None, r4) \<Rightarrow>
                (case saveKeystore c (r4\<lparr>key := (key r4)\<lparr>Pin := KeyString c k\<rparr>\<rparr>) of
                   (Some err, r5) \<Rightarrow> (Some err, r5)
                 | (None, r5) \<Rightarrow> (None, logln ''update tip pin done'' [] r5)))))"

definition migrateToSafe ::
  "('w, 'k, 'key, 'tx, 'addr) sdk \<Rightarrow> ('w, 'k, 'addr) runner \<Rightarrow> error option \<times> ('w, 'k, 'addr) runner" where
  "migrateToSafe c r =
     (case KeyFromString c (SpendKey (key r)) of
        Inr _ \<Rightarrow> (None, logln ''migrated to safe already'' [] r)
      | Inl _ \<Rightarrow>
          (let r1 = logln ''start migrate safe'' [] r in
           case call CallGenerateKey (GenerateKey c) r1 of (k, r2) \<Rightarrow>
           (let newSpendKey = KeyString c k;
                r3 = logln ''new spend key:'' [S newSpendKey] r2 in
            case call (CallSafeMigrate newSpendKey (Pin (key r3)))
                      (SafeMigrate c newSpendKey (Pin (key r3))) r3 of
              (Some err, r4) \<Rightarrow> (Some (Errorf ''migrate safe failed: %w'' [] err), r4)
            | (None, r4) \<Rightarrow>
                (case saveKeystore c (r4\<lparr>key := (key r4)\<lparr>SpendKey := newSpendKey\<rparr>\<rparr>) of
                   (Some err, r5) \<Rightarrow> (Some err, r5)
                 | (None, r5) \<Rightarrow> (None, logln ''migrate safe done'' [] r5)))))"

section \<open>Phase 4: migrateSafeAssets\<close>

definition sumUtxos :: "SafeUtxo list \<Rightarrow> decimal" where
  "sumUtxos utxos = fold (\<lambda>utxo sum. sum + Amount utxo) utxos 0"

text \<open>
  The map \<open>assets\<close> from asset id to the outputs seen so far, as an association list with
  one entry per key, a new key going to the end. \<open>append(assets[id], utxo)\<close> on a missing
  key appends to the nil slice.
\<close>

fun assets_append :: "(string \<times> SafeUtxo list) list \<Rightarrow> SafeUtxo \<Rightarrow> (string \<times> SafeUtxo list) list" where
  "assets_append [] utxo = [(UtxoAssetID utxo, [utxo])]"
| "assets_append ((k, us) # rest) utxo =
     (if k = UtxoAssetID utxo then (k, us @ [utxo]) # rest
      else (k, us) # assets_append rest utxo)"

text \<open>
  The inner loop over one page: each output moves the cursor and joins its asset. The
  cursor after an output of sequence \<open>2^64 - 1\<close> is 0.
\<close>

definition collect ::
  "SafeUtxo list \<Rightarrow> SafeListUtxoOption \<times> (string \<times> SafeUtxo list) list
    \<Rightarrow> SafeListUtxoOption \<times> (string \<times> SafeUtxo list) list" where
  "collect utxos st =
     fold (\<lambda>utxo (opt, assets).
             (opt\<lparr>Offset := (Sequence utxo + 1) mod 2 ^ 64\<rparr>, assets_append assets utxo))
       utxos st"

text \<open>
  The enumeration loop \<open>for { ... }\<close> has no bound of its own: it ends when a page is
  empty or a request fails. \<open>None\<close> is the run that never leaves the loop.
\<close>

partial_function (option) list_loop ::
  "('w, 'k, 'key, 'tx, 'addr) sdk \<Rightarrow> SafeListUtxoOption \<Rightarrow> (string \<times> SafeUtxo list) list
    \<Rightarrow> ('w, 'k, 'addr) runner
    \<Rightarrow> ((error + (string \<times> SafeUtxo list) list) \<times> ('w, 'k, 'addr) runner) option" where
  "list_loop c opt assets r =
     (case call (CallSafeListUtxos opt) (SafeListUtxos c opt) r of
        (Inl err, r1) \<Rightarrow> Some (Inl (Errorf ''list safe utxos failed: %w'' [] err), r1)
      | (Inr utxos, r1) \<Rightarrow>
          if length utxos = 0 then Some (Inr assets, r1)
          else (case collect utxos (opt, assets) of (opt', assets') \<Rightarrow> list_loop c opt' assets' r1))"

declare list_loop.simps [code]

text \<open>
  \<open>utxos[lo:hi]\<close> panics unless \<open>0 \<le> lo \<le> hi \<le> cap\<close>; here \<open>hi\<close> never exceeds the
  length. The index and the group count are Go \<open>int\<close>s; a slice is far shorter than
  \<open>2^63 - 256\<close>, so \<open>idx + *spendGroupCount\<close> does not overflow.
\<close>

definition slice :: "'a list \<Rightarrow> int \<Rightarrow> int \<Rightarrow> 'a list option" where
  "slice xs lo hi =
     (if 0 \<le> lo \<and> lo \<le> hi \<and> hi \<le> int (length xs)
      then Some (take (nat hi - nat lo) (drop (nat lo) xs)) else None)"

text \<open>The body of the spend loop: one group, one transaction (lines 257 to 298).\<close>

definition settle ::
  "('w, 'k, 'key, 'tx, 'addr) sdk \<Rightarrow> 'key \<Rightarrow> SafeUtxo list \<Rightarrow> ('w, 'k, 'addr) runner
    \<Rightarrow> error option \<times> ('w, 'k, 'addr) runner" where
  "settle c spendKey spends r =
     (case call (CallNewSafeTransactionBuilder spends) (NewSafeTransactionBuilder c spends) r of
      (b0, r1) \<Rightarrow>
      (let b = b0\<lparr>Memo := ''migrate by mixin-migrate''\<rparr> in
       case RequireNewMixAddress c [receiver r1] 1 of
         None \<Rightarrow> (Some (Panic ''RequireNewMixAddress''), r1)
       | Some addr \<Rightarrow>
       (let output = \<lparr>Address = addr, OutputAmount = sumUtxos spends\<rparr> in
        case call (CallMakeTransaction b [output]) (MakeTransaction c b [output]) r1 of
          (Inl err, r2) \<Rightarrow> (Some (Errorf ''make safe transaction failed: %w'' [] err), r2)
        | (Inr tx, r2) \<Rightarrow>
        (case Dump c tx of
           Inl err \<Rightarrow> (Some (Errorf ''dump transaction failed: %w'' [] err), r2)
         | Inr raw \<Rightarrow>
         (let input = \<lparr>RequestID = Hint b, RawTransaction = raw\<rparr> in
          case call (CallSafeCreateTransactionRequest input)
                    (SafeCreateTransactionRequest c input) r2 of
            (Inl err, r3) \<Rightarrow> (Some (Errorf ''create transaction request failed: %w'' [] err), r3)
          | (Inr req, r3) \<Rightarrow>
          (let r4 = emit (CallSafeSignTransaction (Views req) 0) r3 in
           case SafeSignTransaction c tx spendKey (Views req) 0 of
             Inl err \<Rightarrow> (Some (Errorf ''sign transaction failed: %w'' [] err), r4)
           | Inr signed \<Rightarrow>
           (case Dump c signed of
              Inl err \<Rightarrow> (Some (Errorf ''dump transaction failed: %w'' [] err), r4)
            | Inr signedRaw \<Rightarrow>
            (let input2 = \<lparr>RequestID = ReqRequestID req, RawTransaction = signedRaw\<rparr> in
             case call (CallSafeSubmitTransactionRequest input2)
                       (SafeSubmitTransactionRequest c input2) r4 of
               (Inl err, r5) \<Rightarrow>
                 (Some (Errorf ''submit transaction request failed: %w'' [] err), r5)
             | (Inr _, r5) \<Rightarrow> (None, r5)))))))))"

text \<open>
  The spend loop \<open>for idx := 0; idx < len(utxos); idx += *spendGroupCount\<close>. With a group
  count of 0 it would never advance, so it is a partial function as well.
\<close>

partial_function (option) spend_loop ::
  "('w, 'k, 'key, 'tx, 'addr) sdk \<Rightarrow> int \<Rightarrow> 'key \<Rightarrow> SafeUtxo list \<Rightarrow> int
    \<Rightarrow> ('w, 'k, 'addr) runner \<Rightarrow> (error option \<times> ('w, 'k, 'addr) runner) option" where
  "spend_loop c spendGroupCount spendKey utxos idx r =
     (if idx < int (length utxos) then
        (case slice utxos idx (min (int (length utxos)) (idx + spendGroupCount)) of
           None \<Rightarrow> Some (Some (Panic ''slice bounds out of range''), r)
         | Some spends \<Rightarrow>
             (case settle c spendKey spends r of
                (Some err, r1) \<Rightarrow> Some (Some err, r1)
              | (None, r1) \<Rightarrow> spend_loop c spendGroupCount spendKey utxos (idx + spendGroupCount) r1))
      else Some (None, r))"

declare spend_loop.simps [code]

text \<open>The loop over the entries of the map, in the order the iteration happens to take.\<close>

fun assets_loop ::
  "('w, 'k, 'key, 'tx, 'addr) sdk \<Rightarrow> int \<Rightarrow> 'key \<Rightarrow> (string \<times> SafeUtxo list) list
    \<Rightarrow> ('w, 'k, 'addr) runner \<Rightarrow> (error option \<times> ('w, 'k, 'addr) runner) option" where
  "assets_loop c spendGroupCount spendKey [] r = Some (None, r)"
| "assets_loop c spendGroupCount spendKey ((assetId, utxos) # rest) r =
     (case call (CallSafeReadAsset assetId) (SafeReadAsset c assetId) r of
        (Inl err, r1) \<Rightarrow>
          Some (Some (Errorf ''read safe asset %s failed: %w'' [S assetId] err), r1)
      | (Inr asset, r1) \<Rightarrow>
          (case spend_loop c spendGroupCount spendKey utxos 0
                  (logln ''migrating safe asset'' [D (sumUtxos utxos), S (SafeSymbol asset)] r1) of
             None \<Rightarrow> None
           | Some (Some err, r2) \<Rightarrow> Some (Some err, r2)
           | Some (None, r2) \<Rightarrow>
               assets_loop c spendGroupCount spendKey rest
                 (logln ''migrated safe asset'' [D (sumUtxos utxos), S (SafeSymbol asset)] r2)))"

definition migrateSafeAssets ::
  "('w, 'k, 'key, 'tx, 'addr) sdk \<Rightarrow> int \<Rightarrow> ('w, 'k, 'addr) runner
    \<Rightarrow> (error option \<times> ('w, 'k, 'addr) runner) option" where
  "migrateSafeAssets c spendGroupCount r =
     (case list_loop c \<lparr>Offset = 0, Limit = 500, Order = ''ASC'', State = ''unspent''\<rparr> [] r of
        None \<Rightarrow> None
      | Some (Inl err, r1) \<Rightarrow> Some (Some err, r1)
      | Some (Inr assets, r1) \<Rightarrow>
          if length assets = 0 then Some (None, logln ''no safe assets'' [] r1)
          else
            (let r2 = logln ''start migrating %d safe assets'' [I (int (length assets))] r1 in
             case KeyFromString c (SpendKey (key r2)) of
               Inl err \<Rightarrow> Some (Some (Errorf ''invalid spend key: %w'' [] err), r2)
             | Inr spendKey \<Rightarrow>
                 (case assets_loop c spendGroupCount spendKey (MapOrder c assets) r2 of
                    None \<Rightarrow> None
                  | Some (Some err, r3) \<Rightarrow> Some (Some err, r3)
                  | Some (None, r3) \<Rightarrow> Some (None, logln ''migrate safe assets done'' [] r3))))"

section \<open>main\<close>

text \<open>
  How a run ends: \<open>Fatal\<close> is \<open>log.Fatalln\<close> with its message and, where there is one,
  the error printed after it; \<open>Declined\<close> is the return after the prompt; \<open>Completed\<close> is
  falling off the end of \<open>main\<close>; \<open>Panicked\<close> is a panic, which no function of the
  program recovers: it passes every \<open>if err != nil\<close> on its way up and ends the process
  without a fatal message.
\<close>

datatype outcome = Completed | Declined | Fatal string "error option" | Panicked string

definition fetchUserInfo ::
  "('w, 'k, 'key, 'tx, 'addr) sdk \<Rightarrow> string \<Rightarrow> ('w, 'addr, 'z) sys_scheme
    \<Rightarrow> (error + User) \<times> ('w, 'addr, 'z) sys_scheme" where
  "fetchUserInfo c ident s =
     (let uri = ''https://echo.yiplee.com/users/'' @ ident in
      call (CallHttpGet uri) (HttpGetUser c uri) s)"

text \<open>\<open>strings.EqualFold(result, "y")\<close>: the only strings that fold to \<open>y\<close> are \<open>y\<close> and \<open>Y\<close>.\<close>

definition conformContinue ::
  "('w, 'k, 'key, 'tx, 'addr) sdk \<Rightarrow> ('w, 'addr, 'z) sys_scheme \<Rightarrow> bool \<times> ('w, 'addr, 'z) sys_scheme" where
  "conformContinue c s =
     (case call CallPromptRun (PromptRun c) s of
        (Inl err, s1) \<Rightarrow> (False, s1)
      | (Inr result, s1) \<Rightarrow> (result = ''y'' \<or> result = ''Y'', s1))"

text \<open>Lines 74 to 88: the four phases, each followed by its \<open>log.Fatalln\<close>.\<close>

definition phases ::
  "('w, 'k, 'key, 'tx, 'addr) sdk \<Rightarrow> int \<Rightarrow> ('w, 'k, 'addr) runner
    \<Rightarrow> (outcome \<times> ('w, 'k, 'addr) runner) option" where
  "phases c spendGroupCount r =
     (case migrateLegacyAssets c r of
        (Some err, r1) \<Rightarrow> Some (Fatal ''migrate legacy assets failed:'' (Some err), r1)
      | (None, r1) \<Rightarrow>
     (case updateTipPin c r1 of
        (Some err, r2) \<Rightarrow> Some (Fatal ''update tip pin failed:'' (Some err), r2)
      | (None, r2) \<Rightarrow>
     (case migrateToSafe c r2 of
        (Some err, r3) \<Rightarrow> Some (Fatal ''migrate safe failed:'' (Some err), r3)
      | (None, r3) \<Rightarrow>
     (case migrateSafeAssets c spendGroupCount r3 of
        None \<Rightarrow> None
      | Some (Some err, r4) \<Rightarrow>
          Some (case err of Panic msg \<Rightarrow> Panicked msg
                | _ \<Rightarrow> Fatal ''migrate safe assets failed:'' (Some err), r4)
      | Some (None, r4) \<Rightarrow> Some (Completed, r4)))))"

text \<open>
  \<open>main\<close>, from the parsed command line (\<open>args\<close>, \<open>-key\<close>, \<open>-group\<close>) and the state of
  the outside at the start. It returns how the run ended and the state it left.
\<close>

definition main ::
  "('w, 'k, 'key, 'tx, 'addr) sdk \<Rightarrow> string list \<Rightarrow> string \<Rightarrow> int \<Rightarrow> ('w, 'addr) sys
    \<Rightarrow> (outcome \<times> ('w, 'addr) sys) option" where
  "main c args keystorePath spendGroupCount s =
     (if length args = 0 then Some (Fatal ''receiver id is required'' None, s)
      else if spendGroupCount \<le> 0 \<or> spendGroupCount > 256
      then Some (Fatal ''invalid spend group count'' None, s)
      else
     (case loadKeystore c keystorePath s of
        (Inl err, s1) \<Rightarrow> Some (Fatal ''load keystore failed:'' (Some err), s1)
      | (Inr k, s1) \<Rightarrow>
     (case NewFromKeystore c (Embedded k) of
        Inl err \<Rightarrow> Some (Fatal ''new client failed:'' (Some err), s1)
      | Inr clientID \<Rightarrow>
     (case fetchUserInfo c (hd args) s1 of
        (Inl err, s2) \<Rightarrow> Some (Fatal ''read receiver info failed:'' (Some err), s2)
      | (Inr user, s2) \<Rightarrow>
          if ToInt64 c (IdentityNumber user) = 0
          then Some (Fatal ''receiver is not a mixin messenger user'' None, s2)
          else if UserID user = clientID then Some (Fatal ''receiver is self'' None, s2)
          else
            (let s3 = logln ''migrate assets to %s(%s)'' [S (FullName user), S (UserID user)] s2 in
             case conformContinue c s3 of
               (False, s4) \<Rightarrow> Some (Declined, s4)
             | (True, s4) \<Rightarrow>
                 (case phases c spendGroupCount
                         \<lparr>world = world s4, files = files s4, trace = trace s4,
                          key = k, output_path = keystorePath, receiver = UserID user\<rparr> of
                    None \<Rightarrow> None
                  | Some (out, r) \<Rightarrow> Some (out, sys.truncate r)))))))"

section \<open>Reading the trace\<close>

text \<open>The spend groups handed to the transaction builder, in the order of the calls.\<close>

fun built_groups :: "'addr event list \<Rightarrow> SafeUtxo list list" where
  "built_groups [] = []"
| "built_groups (CallNewSafeTransactionBuilder spends # es) = spends # built_groups es"
| "built_groups (e # es) = built_groups es"

text \<open>The builders and output lists handed to \<open>MakeTransaction\<close>.\<close>

fun made_transactions ::
  "'addr event list \<Rightarrow> (SafeTransactionBuilder \<times> 'addr TransactionOutput list) list" where
  "made_transactions [] = []"
| "made_transactions (CallMakeTransaction b outputs # es) = (b, outputs) # made_transactions es"
| "made_transactions (e # es) = made_transactions es"

text \<open>The page requests.\<close>

fun list_requests :: "'addr event list \<Rightarrow> SafeListUtxoOption list" where
  "list_requests [] = []"
| "list_requests (CallSafeListUtxos opt # es) = opt # list_requests es"
| "list_requests (e # es) = list_requests es"

text \<open>
  What a ledger holding the unspent outputs \<open>ledger\<close>, in ascending order of sequence,
  answers a page request with: the first \<open>Limit\<close> outputs whose sequence is at least
  \<open>Offset\<close>. The ledger is outside the repository; this is the contract of its endpoint
  that the enumeration relies on.
\<close>

definition ledger_page :: "SafeUtxo list \<Rightarrow> SafeListUtxoOption \<Rightarrow> SafeUtxo list" where
  "ledger_page ledger opt = take (Limit opt) (filter (\<lambda>u. Offset opt \<le> Sequence u) ledger)"

text \<open>The legacy transfers: asset, receiver and amount of each \<open>Transfer\<close> call.\<close>

fun transfers :: "'addr event list \<Rightarrow> (string \<times> string \<times> decimal) list" where
  "transfers [] = []"
| "transfers (CallTransfer t pin # es) =
     (TransferAssetID t, OpponentID t, TransferAmount t) # transfers es"
| "transfers (e # es) = transfers es"

text \<open>The outputs collected for an asset (none for an asset that is not a key).\<close>

definition assets_get :: "(string \<times> SafeUtxo list) list \<Rightarrow> string \<Rightarrow> SafeUtxo list" where
  "assets_get assets a = (case map_of assets a of None \<Rightarrow> [] | Some us \<Rightarrow> us)"

text \<open>
  The keystore file holds the record: its content starts with the encoding of the
  record in memory.
\<close>

definition persisted :: "('w, 'k, 'key, 'tx, 'addr) sdk \<Rightarrow> ('w, 'k, 'addr) runner \<Rightarrow> bool" where
  "persisted c r =
     (case JsonEncode c (key r) of
        Inl err \<Rightarrow> False
      | Inr data \<Rightarrow>
          (case files r (output_path r) of
             None \<Rightarrow> False
           | Some f \<Rightarrow> take (length data) (content f) = data))"

text \<open>The operations in a trace by name, log lines left out.\<close>

fun op_name :: "'addr event \<Rightarrow> string list" where
  "op_name (Log msg args) = []"
| "op_name (OsOpen path) = [''Open'']"
| "op_name (OsOpenFile path) = [''OpenFile'']"
| "op_name (OsWrite path data) = [''Write'']"
| "op_name (CallHttpGet uri) = [''HttpGet'']"
| "op_name CallPromptRun = [''PromptRun'']"
| "op_name CallReadAssets = [''ReadAssets'']"
| "op_name CallRandomTraceID = [''RandomTraceID'']"
| "op_name (CallTransfer t pin) = [''Transfer'']"
| "op_name CallGenerateKey = [''GenerateKey'']"
| "op_name (CallModifyPin old new) = [''ModifyPin'']"
| "op_name (CallSafeMigrate spend pin) = [''SafeMigrate'']"
| "op_name (CallSafeListUtxos opt) = [''SafeListUtxos'']"
| "op_name (CallSafeReadAsset ident) = [''SafeReadAsset'']"
| "op_name (CallNewSafeTransactionBuilder spends) = [''NewSafeTransactionBuilder'']"
| "op_name (CallMakeTransaction b outputs) = [''MakeTransaction'']"
| "op_name (CallSafeCreateTransactionRequest input) = [''SafeCreateTransactionRequest'']"
| "op_name (CallSafeSignTransaction views i) = [''SafeSignTransaction'']"
| "op_name (CallSafeSubmitTransactionRequest input) = [''SafeSubmitTransactionRequest'']"

definition ops :: "'addr event list \<Rightarrow> string list" where
  "ops es = concat (map op_name es)"

text \<open>
  The phase an event belongs to, 0 for the events that two phases share (key generation
  and the keystore file). Every log line belongs to the phase that prints it.
\<close>

fun phase_of :: "'addr event \<Rightarrow> nat" where
  "phase_of (Log msg args) =
     (if msg \<in> {''no legacy assets'', ''start migrating %d legacy assets'',
                 ''migrating legacy asset'', ''migrated legacy asset'',
                 ''migrate legacy assets done''} then 1
      else if msg \<in> {''updated to tip pin already'', ''start update tip pin'', ''new pin:'',
                      ''update tip pin done''} then 2
      else if msg \<in> {''migrated to safe already'', ''start migrate safe'', ''new spend key:'',
                      ''migrate safe done''} then 3
      else if msg \<in> {''no safe assets'', ''start migrating %d safe assets'',
                      ''migrating safe asset'', ''migrated safe asset'',
                      ''migrate safe assets done''} then 4
      else 0)"
| "phase_of CallReadAssets = 1"
| "phase_of CallRandomTraceID = 1"
| "phase_of (CallTransfer t pin) = 1"
| "phase_of (CallModifyPin old new) = 2"
| "phase_of (CallSafeMigrate spend pin) = 3"
| "phase_of (CallSafeListUtxos opt) = 4"
| "phase_of (CallSafeReadAsset ident) = 4"
| "phase_of (CallNewSafeTransactionBuilder spends) = 4"
| "phase_of (CallMakeTransaction b outputs) = 4"
| "phase_of (CallSafeCreateTransactionRequest input) = 4"
| "phase_of (CallSafeSignTransaction views i) = 4"
| "phase_of (CallSafeSubmitTransactionRequest input) = 4"
| "phase_of e = 0"

text \<open>The phases of the events of a trace that belong to one phase only.\<close>

definition phase_marks :: "'addr event list \<Rightarrow> nat list" where
  "phase_marks es = filter (\<lambda>n. 0 < n) (map phase_of es)"

text \<open>The phase a run of the phases ended in, from its outcome.\<close>

definition reached :: "outcome \<Rightarrow> nat" where
  "reached out =
     (case out of
        Fatal msg err \<Rightarrow>
          (if msg = ''migrate legacy assets failed:'' then 1
           else if msg = ''update tip pin failed:'' then 2
           else if msg = ''migrate safe failed:'' then 3
           else 4)
      | _ \<Rightarrow> 4)"

text \<open>The error of the drain phase's check of the spend key (line 244).\<close>

definition is_invalid_spend_key :: "error \<Rightarrow> bool" where
  "is_invalid_spend_key err =
     (case err of Errorf fmt args e \<Rightarrow> fmt = ''invalid spend key: %w'' | _ \<Rightarrow> False)"

text \<open>
  Consecutive chunks of at most \<open>n\<close> elements: the mathematical description of the
  batching, against which the spend loop is compared.
\<close>

function chunks :: "nat \<Rightarrow> 'a list \<Rightarrow> 'a list list" where
  "chunks n xs = (if n = 0 \<or> xs = [] then [] else take n xs # chunks n (drop n xs))"
  by pat_completeness auto
termination
  by (relation "measure (\<lambda>(n, xs). length xs)") auto

section \<open>A small world for concrete runs\<close>

text \<open>
  A collaborator record in which every call succeeds: the ledger lists the given legacy
  balances and serves the given unspent outputs in pages by ascending sequence; key
  strings are those that start with \<open>key:\<close>; the keystore codec writes the two secrets
  with separators and reads up to the terminator, ignoring what follows it.
\<close>

definition demo_KeyFromString :: "string \<Rightarrow> error + string" where
  "demo_KeyFromString s = (if take 4 s = ''key:'' then Inr s else Inl (External ''invalid key''))"

definition demo_JsonEncode :: "unit Keystore \<Rightarrow> error + string" where
  "demo_JsonEncode k = Inr (Pin k @ ''|'' @ SpendKey k @ '';'')"

definition demo_JsonDecode :: "string \<Rightarrow> error + unit Keystore" where
  "demo_JsonDecode s =
     (if CHR '';'' \<in> set s \<and> CHR ''|'' \<in> set (takeWhile (\<lambda>ch. ch \<noteq> CHR '';'') s)
      then Inr \<lparr>Embedded = (),
                Pin = takeWhile (\<lambda>ch. ch \<noteq> CHR ''|'') s,
                SpendKey = takeWhile (\<lambda>ch. ch \<noteq> CHR '';'') (tl (dropWhile (\<lambda>ch. ch \<noteq> CHR ''|'') s))\<rparr>
      else Inl (External ''unexpected end of JSON input''))"

definition demo ::
  "Asset list \<Rightarrow> SafeUtxo list \<Rightarrow> User \<Rightarrow> (unit, unit, string, SafeUtxo list, string list \<times> nat) sdk" where
  "demo legacy ledger user =
     \<lparr>NewFromKeystore = (\<lambda>k. Inr ''alice''),
      ReadAssets = (\<lambda>w. (Inr legacy, w)),
      Transfer = (\<lambda>t pin w. (Inr \<lparr>SnapshotID = TraceID t\<rparr>, w)),
      RandomTraceID = (\<lambda>w. (''trace'', w)),
      ModifyPin = (\<lambda>old new w. (None, w)),
      SafeMigrate = (\<lambda>spend pin w. (None, w)),
      SafeListUtxos =
        (\<lambda>opt w. (Inr (take (Limit opt) (filter (\<lambda>u. Offset opt \<le> Sequence u) ledger)), w)),
      SafeReadAsset = (\<lambda>ident w. (Inr \<lparr>SafeSymbol = ident\<rparr>, w)),
      NewSafeTransactionBuilder = (\<lambda>spends w. (\<lparr>Inputs = spends, Memo = [], Hint = ''hint''\<rparr>, w)),
      RequireNewMixAddress = (\<lambda>members threshold. Some (members, threshold)),
      MakeTransaction = (\<lambda>b outputs w. (Inr (Inputs b), w)),
      Dump = (\<lambda>tx. Inr ''raw''),
      SafeCreateTransactionRequest =
        (\<lambda>input w. (Inr \<lparr>ReqRequestID = RequestID input, Views = []\<rparr>, w)),
      SafeSignTransaction = (\<lambda>tx k views i. Inr tx),
      SafeSubmitTransactionRequest =
        (\<lambda>input w. (Inr \<lparr>ReqRequestID = RequestID input, Views = []\<rparr>, w)),
      KeyFromString = demo_KeyFromString,
      GenerateKey = (\<lambda>w. (''key:fresh'', w)),
      KeyString = (\<lambda>k. k),
      KeyPublic = (\<lambda>k. ''pub:'' @ k),
      ToInt64 = (\<lambda>s. if s = ''7000'' then 7000 else 0),
      HttpGetUser = (\<lambda>uri w. (Inr user, w)),
      PromptRun = (\<lambda>w. (Inr ''y'', w)),
      MapOrder = (\<lambda>assets. assets),
      JsonEncode = demo_JsonEncode,
      JsonDecode = demo_JsonDecode,
      MayRead = (\<lambda>p. True),
      MayWrite = (\<lambda>p. True)\<rparr>"

definition bob :: User where
  "bob = \<lparr>UserID = ''bob'', IdentityNumber = ''7000'', FullName = ''Bob''\<rparr>"

definition demo_runner :: "string \<Rightarrow> string \<Rightarrow> (unit, unit, string list \<times> nat) runner" where
  "demo_runner pin spend =
     \<lparr>world = (),
      files = [''keystore.json'' \<mapsto> \<lparr>content = ''old contents, rather long'', perm = 384\<rparr>],
      trace = [], key = \<lparr>Embedded = (), Pin = pin, SpendKey = spend\<rparr>,
      output_path = ''keystore.json'', receiver = ''bob''\<rparr>"

text \<open>An unspent output of the given asset whose amount and sequence number are \<open>n\<close>.\<close>

definition demo_utxo :: "string \<Rightarrow> nat \<Rightarrow> SafeUtxo" where
  "demo_utxo a n = \<lparr>UtxoAssetID = a, Amount = rat_of_nat n, Sequence = n\<rparr>"

text \<open>Two legacy balances: nothing of asset A, twelve and a half of asset B.\<close>

definition demo_legacy :: "Asset list" where
  "demo_legacy = [\<lparr>AssetID = ''assetA'', Balance = 0, Symbol = ''A''\<rparr>,
                  \<lparr>AssetID = ''assetB'', Balance = 25 / 2, Symbol = ''B''\<rparr>]"

text \<open>Three unspent outputs of two assets, by ascending sequence.\<close>

definition demo_ledger :: "SafeUtxo list" where
  "demo_ledger = [demo_utxo ''btc'' 1, demo_utxo ''eth'' 2, demo_utxo ''btc'' 3]"

text \<open>
  The outside at the start of a run: a keystore file with the legacy PIN 1234 and no spend
  key. Two receivers that \<open>main\<close> must refuse: one whose identity number converts to 0,
  and the wallet itself.
\<close>

definition demo_sys :: "(unit, string list \<times> nat) sys" where
  "demo_sys =
     \<lparr>world = (), files = [''keystore.json'' \<mapsto> \<lparr>content = ''1234|;'', perm = 384\<rparr>], trace = []\<rparr>"

definition carol :: User where
  "carol = \<lparr>UserID = ''carol'', IdentityNumber = ''0'', FullName = ''Carol''\<rparr>"

definition alice :: User where
  "alice = \<lparr>UserID = ''alice'', IdentityNumber = ''7000'', FullName = ''Alice''\<rparr>"

section \<open>Properties\<close>

subsection \<open>Basic facts\<close>

lemma call_eq:
  "call e f r = (fst (f (world r)), r\<lparr>trace := trace r @ [e], world := snd (f (world r))\<rparr>)"
  by (simp add: call_def emit_def split: prod.split)

lemma built_groups_append: "built_groups (xs @ ys) = built_groups xs @ built_groups ys"
  by (induction xs rule: built_groups.induct) simp_all

lemma made_transactions_append:
  "made_transactions (xs @ ys) = made_transactions xs @ made_transactions ys"
  by (induction xs rule: made_transactions.induct) simp_all

lemma sumUtxos_sum_list: "sumUtxos utxos = sum_list (map Amount utxos)"
proof -
  have "fold (\<lambda>utxo sum. sum + Amount utxo) utxos a = a + sum_list (map Amount utxos)" for a
    by (induction utxos arbitrary: a) (simp_all add: add.assoc)
  then show ?thesis by (simp add: sumUtxos_def)
qed

lemma settle_trace:
  assumes "settle c spendKey spends r = (res, r')"
  shows "\<exists>evs. trace r' = trace r @ evs \<and> built_groups evs = [spends]"
    and "receiver r' = receiver r" and "key r' = key r" and "files r' = files r"
    and "output_path r' = output_path r"
  using assms
  by (auto simp: settle_def call_eq emit_def Let_def
      split: prod.splits sum.splits option.splits)

declare chunks.simps [simp del]

lemma chunks_Nil [simp]: "chunks n [] = []"
  by (simp add: chunks.simps)

lemma chunks_step: "0 < n \<Longrightarrow> xs \<noteq> [] \<Longrightarrow> chunks n xs = take n xs # chunks n (drop n xs)"
  by (subst chunks.simps) simp

lemma concat_chunks: "0 < n \<Longrightarrow> concat (chunks n xs) = xs"
  by (induction n xs rule: chunks.induct) (subst chunks.simps, simp)

lemma chunks_sizes: "g \<in> set (chunks n xs) \<Longrightarrow> g \<noteq> [] \<and> length g \<le> n"
proof (induction n xs rule: chunks.induct)
  case (1 n xs)
  show ?case
  proof (cases "n = 0 \<or> xs = []")
    case True
    with "1.prems" show ?thesis by (simp add: chunks.simps)
  next
    case False
    with "1.prems" have "g = take n xs \<or> g \<in> set (chunks n (drop n xs))"
      by (simp add: chunks_step)
    with False "1.IH" show ?thesis by auto
  qed
qed

lemma ceil_step_ge: "0 < n \<Longrightarrow> n \<le> m \<Longrightarrow> (m + n - 1) div n = Suc ((m - 1) div n)" for m n :: nat
  by (cases m) simp_all

lemma ceil_step_lt: "0 < m \<Longrightarrow> m < n \<Longrightarrow> (m + n - 1) div n = 1" for m n :: nat
  by (cases m) simp_all

lemma length_chunks: "0 < n \<Longrightarrow> length (chunks n xs) = (length xs + n - 1) div n"
proof (induction n xs rule: chunks.induct)
  case (1 n xs)
  show ?case
  proof (cases "xs = []")
    case True
    with "1.prems" show ?thesis by simp
  next
    case False
    with "1.prems" "1.IH"
    have ih: "length (chunks n (drop n xs)) = (length xs - n + n - 1) div n" by simp
    show ?thesis
    proof (cases "n \<le> length xs")
      case True
      with ih have "length (chunks n (drop n xs)) = (length xs - 1) div n" by simp
      moreover have "(length xs + n - 1) div n = Suc ((length xs - 1) div n)"
        using "1.prems" True by (intro ceil_step_ge)
      ultimately show ?thesis using False "1.prems" by (simp add: chunks_step)
    next
      case le: False
      with False "1.prems" have "(length xs + n - 1) div n = 1"
        by (intro ceil_step_lt) simp_all
      with le False "1.prems" show ?thesis by (simp add: chunks_step)
    qed
  qed
qed

lemma chunks_nth_length:
  "0 < n \<Longrightarrow> i < length (chunks n xs) \<Longrightarrow>
   length (chunks n xs ! i) =
     (if i + 1 < length (chunks n xs) then n else length xs - n * (length (chunks n xs) - 1))"
proof (induction n xs arbitrary: i rule: chunks.induct)
  case (1 n xs)
  from "1.prems" have ne: "xs \<noteq> []" by auto
  with "1.prems" have st: "chunks n xs = take n xs # chunks n (drop n xs)"
    by (simp add: chunks_step)
  show ?case
  proof (cases "chunks n (drop n xs) = []")
    case True
    then have "drop n xs = []" using "1.prems"(1) ne
      by (metis chunks_step list.distinct(1))
    with True st "1.prems" show ?thesis by simp
  next
    case False
    then have d: "drop n xs \<noteq> []" by auto
    then have len: "n < length xs" by simp
    show ?thesis
    proof (cases i)
      case 0
      with st False len show ?thesis by simp
    next
      case (Suc j)
      with "1.prems" st have j: "j < length (chunks n (drop n xs))" by simp
      have "length (chunks n (drop n xs) ! j) =
          (if j + 1 < length (chunks n (drop n xs)) then n
           else length (drop n xs) - n * (length (chunks n (drop n xs)) - 1))"
        using "1.IH" "1.prems"(1) ne j by simp
      moreover obtain k where k: "length (chunks n (drop n xs)) = Suc k"
        using False by (cases "chunks n (drop n xs)") auto
      ultimately show ?thesis using Suc st len
        by (auto simp: algebra_simps)
    qed
  qed
qed


lemma slice_chunk:
  assumes "1 \<le> L" "0 \<le> idx" "idx < int (length xs)"
  shows "slice xs idx (min (int (length xs)) (idx + L)) = Some (take (nat L) (drop (nat idx) xs))"
proof -
  have "take (nat (min (int (length xs)) (idx + L)) - nat idx) (drop (nat idx) xs)
        = take (nat L) (drop (nat idx) xs)"
  proof (cases "idx + L \<le> int (length xs)")
    case True
    then have "nat (min (int (length xs)) (idx + L)) - nat idx = nat L"
      using assms by (simp add: min_def nat_diff_distrib' nat_add_distrib)
    then show ?thesis by simp
  next
    case False
    then have "min (int (length xs)) (idx + L) = int (length xs)" by simp
    moreover have "length (drop (nat idx) xs) \<le> nat L" using False assms by simp
    ultimately show ?thesis by simp
  qed
  then show ?thesis using assms by (simp add: slice_def)
qed

lemma spend_loop_chunks:
  assumes "1 \<le> L" "0 \<le> idx"
  shows "\<exists>res r' evs. spend_loop c L k utxos idx r = Some (res, r') \<and> trace r' = trace r @ evs \<and>
           (\<exists>m. built_groups evs = take m (chunks (nat L) (drop (nat idx) utxos))) \<and>
           (res = None \<longrightarrow> built_groups evs = chunks (nat L) (drop (nat idx) utxos))"
  using assms(2)
proof (induction "length utxos - nat idx" arbitrary: idx r rule: less_induct)
  case less
  show ?case
  proof (cases "idx < int (length utxos)")
    case False
    then have "drop (nat idx) utxos = []" by simp
    with False show ?thesis by (subst spend_loop.simps) simp
  next
    case True
    define spends where "spends = take (nat L) (drop (nat idx) utxos)"
    have sl: "slice utxos idx (min (int (length utxos)) (idx + L)) = Some spends"
      unfolding spends_def using assms(1) less.prems True by (rule slice_chunk)
    have ne: "drop (nat idx) utxos \<noteq> []" using True less.prems by simp
    have ch: "chunks (nat L) (drop (nat idx) utxos)
              = spends # chunks (nat L) (drop (nat (idx + L)) utxos)"
      using assms(1) less.prems ne
      by (simp add: chunks_step spends_def nat_add_distrib add.commute)
    obtain res1 r1 where st: "settle c k spends r = (res1, r1)" by force
    from settle_trace(1)[OF st] obtain evs1
      where evs1: "trace r1 = trace r @ evs1" "built_groups evs1 = [spends]" by blast
    show ?thesis
    proof (cases res1)
      case (Some err)
      have "spend_loop c L k utxos idx r = Some (Some err, r1)"
        using True sl st Some by (subst spend_loop.simps) simp
      moreover have "built_groups evs1 = take 1 (chunks (nat L) (drop (nat idx) utxos))"
        using evs1 ch by simp
      then have "\<exists>m. built_groups evs1 = take m (chunks (nat L) (drop (nat idx) utxos))" ..
      ultimately show ?thesis
        by (intro exI[of _ "Some err"] exI[of _ r1] exI[of _ evs1]) (use evs1 in simp)
    next
      case None
      have step: "spend_loop c L k utxos idx r = spend_loop c L k utxos (idx + L) r1"
        using True sl st None by (subst spend_loop.simps) simp
      have "length utxos - nat (idx + L) < length utxos - nat idx"
        using True assms(1) less.prems by linarith
      moreover have "0 \<le> idx + L" using assms(1) less.prems by simp
      ultimately obtain res r' evs m where
        ih: "spend_loop c L k utxos (idx + L) r1 = Some (res, r')" "trace r' = trace r1 @ evs"
            "built_groups evs = take m (chunks (nat L) (drop (nat (idx + L)) utxos))"
            "res = None \<longrightarrow> built_groups evs = chunks (nat L) (drop (nat (idx + L)) utxos)"
        using less.hyps[of "idx + L" r1] by blast
      have a: "spend_loop c L k utxos idx r = Some (res, r')" using step ih(1) by simp
      have b: "trace r' = trace r @ (evs1 @ evs)" using ih(2) evs1(1) by simp
      have "built_groups (evs1 @ evs) = take (Suc m) (chunks (nat L) (drop (nat idx) utxos))"
        using ih(3) evs1(2) ch by (simp add: built_groups_append)
      then have d: "\<exists>m. built_groups (evs1 @ evs) = take m (chunks (nat L) (drop (nat idx) utxos))" ..
      have e: "res = None \<longrightarrow> built_groups (evs1 @ evs) = chunks (nat L) (drop (nat idx) utxos)"
        using ih(4) evs1(2) ch by (simp add: built_groups_append)
      show ?thesis
        by (rule exI[of _ res], rule exI[of _ r'], rule exI[of _ "evs1 @ evs"])
          (use a b d e in blast)
    qed
  qed
qed


lemma ceiling_div_nat:
  assumes "0 < n"
  shows "\<lceil>rat_of_nat m / rat_of_nat n\<rceil> = int ((m + n - 1) div n)"
proof -
  define q where "q = (m + n - 1) div n"
  have "m + n - 1 < n + q * n"
    unfolding q_def using assms by (rule dividend_less_div_times)
  then have 1: "m \<le> q * n" by simp
  have "q * n \<le> m + n - 1"
    unfolding q_def by (rule div_times_less_eq_dividend)
  with assms have 2: "q * n < m + n" by simp
  have up: "rat_of_nat m / rat_of_nat n \<le> of_int (int q)"
  proof -
    have "rat_of_nat m \<le> rat_of_nat (q * n)" using 1 by (rule of_nat_mono)
    then show ?thesis using assms by (simp add: pos_divide_le_eq)
  qed
  have lo: "of_int (int q) - 1 < rat_of_nat m / rat_of_nat n"
  proof -
    have "rat_of_nat (q * n) < rat_of_nat (m + n)" using 2 by (simp only: of_nat_less_iff)
    then have "(rat_of_nat q - 1) * rat_of_nat n < rat_of_nat m"
      by (simp add: algebra_simps)
    then show ?thesis using assms by (simp add: pos_less_divide_eq)
  qed
  from lo up have "\<lceil>rat_of_nat m / rat_of_nat n\<rceil> = int q" by (rule ceiling_unique)
  then show ?thesis by (simp add: q_def)
qed

lemma concat_take_chunks:
  assumes "0 < n"
  shows "\<exists>j. concat (take m (chunks n xs)) = take j xs"
proof -
  have "concat (take m (chunks n xs)) @ concat (drop m (chunks n xs))
        = concat (take m (chunks n xs) @ drop m (chunks n xs))"
    by (simp only: concat_append)
  also have "\<dots> = xs" using concat_chunks[OF assms, of xs] by simp
  finally have "take (length (concat (take m (chunks n xs)))) xs = concat (take m (chunks n xs))"
    by (metis append_eq_conv_conj)
  then have "concat (take m (chunks n xs)) = take (length (concat (take m (chunks n xs)))) xs"
    by (rule sym)
  then show ?thesis ..
qed

subsection \<open>A secret that is already a key makes its phase a no-op\<close>

text \<open>
  Claim C4. When the authorization PIN already parses as a private key, \<open>updateTipPin\<close>
  returns success and leaves the run state as it was except for one log line: the
  keystore record, the world behind the client and the files are untouched and the trace
  gains no key generation, no ledger call and no file operation. The same holds for
  \<open>migrateToSafe\<close> when the spend key already parses.
\<close>

theorem rotated_secret_noop:
  "(KeyFromString c (Pin (key r)) = Inr k \<longrightarrow>
      updateTipPin c r = (None, r\<lparr>trace := trace r @ [Log ''updated to tip pin already'' []]\<rparr>)) \<and>
   (KeyFromString c (SpendKey (key r)) = Inr k' \<longrightarrow>
      migrateToSafe c r = (None, r\<lparr>trace := trace r @ [Log ''migrated to safe already'' []]\<rparr>))"
  by (simp add: updateTipPin_def migrateToSafe_def logln_def emit_def)

theorem rotated_secret_noop_witness:
  "KeyFromString (demo [] [] bob) (Pin (key (demo_runner ''key:p'' ''key:s''))) = Inr ''key:p'' \<and>
   updateTipPin (demo [] [] bob) (demo_runner ''key:p'' ''key:s'') =
     (None, (demo_runner ''key:p'' ''key:s'')\<lparr>trace := [Log ''updated to tip pin already'' []]\<rparr>) \<and>
   KeyFromString (demo [] [] bob) (SpendKey (key (demo_runner ''key:p'' ''key:s''))) = Inr ''key:s'' \<and>
   migrateToSafe (demo [] [] bob) (demo_runner ''key:p'' ''key:s'') =
     (None, (demo_runner ''key:p'' ''key:s'')\<lparr>trace := [Log ''migrated to safe already'' []]\<rparr>)"
  using rotated_secret_noop
    [of "demo [] [] bob" "demo_runner ''key:p'' ''key:s''" "''key:p''" "''key:s''"]
  by (simp add: demo_def demo_runner_def demo_KeyFromString_def)

subsection \<open>Batching into spend groups\<close>

text \<open>
  Claim C1. For a group count \<open>L \<ge> 1\<close> (\<open>main\<close> admits 1 to 256) the spend loop over
  one asset's \<open>N\<close> outputs always returns. The groups it hands to the transaction
  builder are non-empty, hold at most \<open>L\<close> outputs, and their concatenation in the order
  produced is an initial part of the asset's sequence. When no settlement fails there are
  exactly \<open>\<lceil>N / L\<rceil>\<close> groups (none for \<open>N = 0\<close>), their concatenation is the whole
  sequence, every group but the last holds \<open>L\<close> outputs and the last holds the remainder.
\<close>

theorem spend_groups_batching:
  assumes "1 \<le> L"
  shows "\<exists>res r' evs.
           spend_loop c L k utxos 0 r = Some (res, r') \<and> trace r' = trace r @ evs \<and>
           (\<exists>j. concat (built_groups evs) = take j utxos) \<and>
           (\<forall>g \<in> set (built_groups evs). g \<noteq> [] \<and> int (length g) \<le> L) \<and>
           (res = None \<longrightarrow>
              int (length (built_groups evs)) = \<lceil>rat_of_nat (length utxos) / rat_of_int L\<rceil> \<and>
              concat (built_groups evs) = utxos \<and>
              (\<forall>i < length (built_groups evs).
                 length (built_groups evs ! i) =
                   (if i + 1 < length (built_groups evs) then nat L
                    else length utxos - nat L * (length (built_groups evs) - 1))))"
proof -
  have L: "0 < nat L" using assms by simp
  have "\<exists>res r' evs. spend_loop c L k utxos 0 r = Some (res, r') \<and> trace r' = trace r @ evs \<and>
           (\<exists>m. built_groups evs = take m (chunks (nat L) utxos)) \<and>
           (res = None \<longrightarrow> built_groups evs = chunks (nat L) utxos)"
    using spend_loop_chunks[OF assms, of 0 c k utxos r] by simp
  then obtain res r' evs m where
    run: "spend_loop c L k utxos 0 r = Some (res, r')" "trace r' = trace r @ evs"
    and pre: "built_groups evs = take m (chunks (nat L) utxos)"
    and full: "res = None \<longrightarrow> built_groups evs = chunks (nat L) utxos"
    by blast
  have 1: "\<exists>j. concat (built_groups evs) = take j utxos"
    unfolding pre using L by (rule concat_take_chunks)
  have 2: "\<forall>g \<in> set (built_groups evs). g \<noteq> [] \<and> int (length g) \<le> L"
  proof
    fix g assume "g \<in> set (built_groups evs)"
    then have "g \<in> set (chunks (nat L) utxos)" unfolding pre by (rule in_set_takeD)
    then have "g \<noteq> [] \<and> length g \<le> nat L" by (rule chunks_sizes)
    then show "g \<noteq> [] \<and> int (length g) \<le> L" using assms by auto
  qed
  have 3: "res = None \<longrightarrow>
      int (length (built_groups evs)) = \<lceil>rat_of_nat (length utxos) / rat_of_int L\<rceil> \<and>
      concat (built_groups evs) = utxos \<and>
      (\<forall>i < length (built_groups evs).
         length (built_groups evs ! i) =
           (if i + 1 < length (built_groups evs) then nat L
            else length utxos - nat L * (length (built_groups evs) - 1)))"
  proof
    assume "res = None"
    with full have eq: "built_groups evs = chunks (nat L) utxos" by simp
    have "rat_of_nat (nat L) = rat_of_int L" using assms by simp
    then have "\<lceil>rat_of_nat (length utxos) / rat_of_int L\<rceil> = int ((length utxos + nat L - 1) div nat L)"
      using ceiling_div_nat[OF L, of "length utxos"] by (simp only:)
    then have a: "int (length (built_groups evs)) = \<lceil>rat_of_nat (length utxos) / rat_of_int L\<rceil>"
      unfolding eq using length_chunks[OF L, of utxos] by simp
    have b: "concat (built_groups evs) = utxos" unfolding eq using L by (rule concat_chunks)
    have c: "\<forall>i < length (built_groups evs).
         length (built_groups evs ! i) =
           (if i + 1 < length (built_groups evs) then nat L
            else length utxos - nat L * (length (built_groups evs) - 1))"
      unfolding eq using chunks_nth_length[OF L, of _ utxos] by (intro allI impI)
    from a b c show "int (length (built_groups evs)) = \<lceil>rat_of_nat (length utxos) / rat_of_int L\<rceil> \<and>
      concat (built_groups evs) = utxos \<and>
      (\<forall>i < length (built_groups evs).
         length (built_groups evs ! i) =
           (if i + 1 < length (built_groups evs) then nat L
            else length utxos - nat L * (length (built_groups evs) - 1)))" by (intro conjI)
  qed
  show ?thesis
    by (rule exI[of _ res], rule exI[of _ r'], rule exI[of _ evs]) (intro conjI run 1 2 3)
qed

theorem spend_groups_batching_witness:
  "(1::int) \<le> 2 \<and>
   map_option (map_prod id (built_groups \<circ> trace))
     (spend_loop (demo [] [] bob) 2 ''key:s''
        [demo_utxo ''btc'' 1, demo_utxo ''btc'' 2, demo_utxo ''btc'' 3, demo_utxo ''btc'' 4,
         demo_utxo ''btc'' 5] 0 (demo_runner ''key:p'' ''key:s''))
   = Some (None, [[demo_utxo ''btc'' 1, demo_utxo ''btc'' 2],
                  [demo_utxo ''btc'' 3, demo_utxo ''btc'' 4], [demo_utxo ''btc'' 5]]) \<and>
   map_option (map_prod id (map length \<circ> built_groups \<circ> trace))
     (spend_loop (demo [] [] bob) 256 ''key:s'' (replicate 1001 (demo_utxo ''btc'' 1)) 0
        (demo_runner ''key:p'' ''key:s''))
   = Some (None, [256, 256, 256, 233])"
proof -
  note run = spend_loop.simps slice_def settle_def call_eq emit_def Let_def demo_def demo_runner_def
  have five: "map_option (map_prod id (built_groups \<circ> trace))
     (spend_loop (demo [] [] bob) 2 ''key:s''
        [demo_utxo ''btc'' 1, demo_utxo ''btc'' 2, demo_utxo ''btc'' 3, demo_utxo ''btc'' 4,
         demo_utxo ''btc'' 5] 0 (demo_runner ''key:p'' ''key:s''))
   = Some (None, [[demo_utxo ''btc'' 1, demo_utxo ''btc'' 2],
                  [demo_utxo ''btc'' 3, demo_utxo ''btc'' 4], [demo_utxo ''btc'' 5]])"
    by (simp add: run)
  have many: "map_option (map_prod id (map length \<circ> built_groups \<circ> trace))
     (spend_loop (demo [] [] bob) 256 ''key:s'' (replicate 1001 (demo_utxo ''btc'' 1)) 0
        (demo_runner ''key:p'' ''key:s''))
   = Some (None, [256, 256, 256, 233])"
    by (simp add: run)
  show ?thesis
    using spend_groups_batching [of 2 "demo [] [] bob" "''key:s''"
        "[demo_utxo ''btc'' 1, demo_utxo ''btc'' 2, demo_utxo ''btc'' 3, demo_utxo ''btc'' 4,
         demo_utxo ''btc'' 5]" "demo_runner ''key:p'' ''key:s''"] five many
    by simp
qed

subsection \<open>One output for the whole sum\<close>

text \<open>
  Claim C6. Settling a spend group hands \<open>MakeTransaction\<close> at most once a builder and an
  output list, and exactly once when the settlement succeeds. The builder is the one made
  from the group's outputs; the output list has exactly one output, addressed to
  \<open>RequireNewMixAddress([receiver], 1)\<close>, whose amount is the exact sum of the amounts of
  the group's outputs: nothing is deducted.
\<close>

theorem settle_single_output:
  assumes "settle c k spends r = (res, r')"
  shows "\<exists>evs. trace r' = trace r @ evs \<and> built_groups evs = [spends] \<and>
           (made_transactions evs = [] \<or>
            (\<exists>addr. RequireNewMixAddress c [receiver r] 1 = Some addr \<and>
               made_transactions evs =
                 [((fst (NewSafeTransactionBuilder c spends (world r)))
                      \<lparr>Memo := ''migrate by mixin-migrate''\<rparr>,
                   [\<lparr>Address = addr, OutputAmount = sum_list (map Amount spends)\<rparr>])])) \<and>
           (res = None \<longrightarrow> made_transactions evs \<noteq> [])"
  using assms
  by (auto simp: settle_def call_eq emit_def Let_def sumUtxos_sum_list
      split: prod.splits sum.splits option.splits)

theorem settle_single_output_witness:
  "map_prod id (\<lambda>r'. made_transactions (trace r'))
     (settle (demo [] [] bob) ''key:s'' [demo_utxo ''btc'' 1, demo_utxo ''btc'' 2]
        (demo_runner ''key:p'' ''key:s''))
   = (None, [(\<lparr>Inputs = [demo_utxo ''btc'' 1, demo_utxo ''btc'' 2],
               Memo = ''migrate by mixin-migrate'', Hint = ''hint''\<rparr>,
              [\<lparr>Address = ([''bob''], 1), OutputAmount = 3\<rparr>])])"
  using settle_single_output [of "demo [] [] bob" "''key:s''"
      "[demo_utxo ''btc'' 1, demo_utxo ''btc'' 2]" "demo_runner ''key:p'' ''key:s''"]
  by (simp add: settle_def call_eq emit_def Let_def demo_def demo_runner_def demo_utxo_def
      sumUtxos_def)

subsection \<open>Enumerating the unspent outputs\<close>

lemma list_requests_append: "list_requests (xs @ ys) = list_requests xs @ list_requests ys"
  by (induction xs rule: list_requests.induct) simp_all

lemma assets_get_append:
  "assets_get (assets_append al u) a = assets_get al a @ (if a = UtxoAssetID u then [u] else [])"
  by (induction al u rule: assets_append.induct) (auto simp: assets_get_def)

lemma keys_assets_append:
  "set (map fst (assets_append al u)) = insert (UtxoAssetID u) (set (map fst al))"
  by (induction al u rule: assets_append.induct) auto

lemma distinct_assets_append:
  "distinct (map fst al) \<Longrightarrow> distinct (map fst (assets_append al u))"
proof (induction al u rule: assets_append.induct)
  case (1 utxo)
  then show ?case by simp
next
  case (2 k us rest utxo)
  then show ?case using keys_assets_append[of rest utxo] by auto
qed

lemma mset_assets_append:
  "mset (concat (map snd (assets_append al u))) = add_mset u (mset (concat (map snd al)))"
  by (induction al u rule: assets_append.induct) auto

lemma collect_Cons:
  "collect (u # us) (opt, al)
     = collect us (opt\<lparr>Offset := (Sequence u + 1) mod 2 ^ 64\<rparr>, assets_append al u)"
  by (simp add: collect_def)

lemma collect_Nil: "collect [] st = st"
  by (simp add: collect_def)

lemma collect_append: "collect (xs @ ys) st = collect ys (collect xs st)"
  by (simp add: collect_def)

lemma fst_collect:
  "fst (collect us (opt, al))
     = (if us = [] then opt else opt\<lparr>Offset := (Sequence (last us) + 1) mod 2 ^ 64\<rparr>)"
  by (induction us arbitrary: opt al) (simp_all add: collect_Nil collect_Cons)

lemma assets_get_collect:
  "assets_get (snd (collect us (opt, al))) a = assets_get al a @ filter (\<lambda>u. UtxoAssetID u = a) us"
  by (induction us arbitrary: opt al) (auto simp: collect_Nil collect_Cons assets_get_append)

lemma distinct_collect:
  "distinct (map fst al) \<Longrightarrow> distinct (map fst (snd (collect us (opt, al))))"
  by (induction us arbitrary: opt al) (simp_all add: collect_Nil collect_Cons distinct_assets_append)

lemma mset_collect:
  "mset (concat (map snd (snd (collect us (opt, al))))) = mset us + mset (concat (map snd al))"
  by (induction us arbitrary: opt al) (simp_all add: collect_Nil collect_Cons mset_assets_append)

lemma sorted_last_max:
  assumes "sorted_wrt (<) (map Sequence xs)" "u \<in> set xs"
  shows "Sequence u \<le> Sequence (last xs)"
proof -
  from assms(2) have ne: "xs \<noteq> []" by auto
  then have xs: "xs = butlast xs @ [last xs]" by simp
  from assms(1) have "sorted_wrt (<) (map Sequence (butlast xs @ [last xs]))"
    using xs by simp
  then have "\<forall>v \<in> set (butlast xs). Sequence v < Sequence (last xs)"
    by (simp add: sorted_wrt_append)
  moreover from assms(2) xs have "u \<in> set (butlast xs) \<or> u = last xs"
    by (metis Un_iff insert_iff list.set(2) set_append empty_iff list.set(1))
  ultimately show ?thesis by auto
qed

lemma list_loop_enumerates:
  fixes c :: "('w, 'k, 'key, 'tx, 'addr) sdk" and r :: "('w, 'k, 'addr) runner"
  assumes ledger: "\<And>opt w. SafeListUtxos c opt w = (Inr (ledger_page (pre @ R) opt), w)"
    and sorted: "sorted_wrt (<) (map Sequence (pre @ R))"
    and bound: "\<forall>u \<in> set R. Sequence u < 2 ^ 64 - 1"
    and pre: "\<forall>u \<in> set pre. Sequence u < Offset opt"
    and rest: "\<forall>u \<in> set R. Offset opt \<le> Sequence u"
    and P: "0 < Limit opt"
  shows "\<exists>r' evs. list_loop c opt assets r = Some (Inr (snd (collect R (opt, assets))), r') \<and>
           trace r' = trace r @ evs \<and>
           length (list_requests evs) = (length R + Limit opt - 1) div Limit opt + 1 \<and>
           list_requests evs \<noteq> [] \<and>
           ledger_page (pre @ R) (last (list_requests evs)) = [] \<and>
           (\<forall>q \<in> set (butlast (list_requests evs)). ledger_page (pre @ R) q \<noteq> []) \<and>
           concat (map (ledger_page (pre @ R)) (list_requests evs)) = R"
  using ledger sorted bound pre rest P
proof (induction "length R" arbitrary: pre R opt assets r rule: less_induct)
  case less
  define P where "P = Limit opt"
  have filt: "filter (\<lambda>u. Offset opt \<le> Sequence u) (pre @ R) = R"
    using less.prems(4,5) by (auto simp: filter_empty_conv filter_id_conv)
  have ans: "ledger_page (pre @ R) opt = take P R"
    unfolding ledger_page_def filt P_def ..
  define r1 where "r1 = r\<lparr>trace := trace r @ [CallSafeListUtxos opt], world := world r\<rparr>"
  have "SafeListUtxos c opt (world r) = (Inr (take P R), world r)"
    unfolding less.prems(1) ans ..
  then have cl: "call (CallSafeListUtxos opt) (SafeListUtxos c opt) r = (Inr (take P R), r1)"
    by (simp add: call_eq r1_def)
  show ?case
  proof (cases "R = []")
    case True
    have "list_loop c opt assets r = Some (Inr assets, r1)"
      using cl True by (subst list_loop.simps) simp
    moreover have "trace r1 = trace r @ [CallSafeListUtxos opt]" by (simp add: r1_def)
    moreover have "(length R + Limit opt - 1) div Limit opt + 1 = 1"
      using True less.prems(6) by simp
    moreover have "ledger_page (pre @ R) opt = []" using ans True by simp
    ultimately show ?thesis using True
      by (intro exI[of _ r1] exI[of _ "[CallSafeListUtxos opt]"]) (simp add: collect_Nil)
  next
    case False
    define page where "page = take P R"
    define R' where "R' = drop P R"
    have R: "R = page @ R'" by (simp add: page_def R'_def)
    have full: "(pre @ page) @ R' = pre @ R" by (simp add: R)
    have pne: "page \<noteq> []" using False less.prems(6) by (simp add: page_def P_def)
    have lastin: "last page \<in> set page" using pne by simp
    then have "last page \<in> set R" using R by simp
    with less.prems(3) have "Sequence (last page) < 2 ^ 64 - 1" by blast
    then have nowrap: "(Sequence (last page) + 1) mod 2 ^ 64 = Sequence (last page) + 1"
      by simp
    obtain opt' assets' where co: "collect page (opt, assets) = (opt', assets')" by force
    have opt': "opt' = opt\<lparr>Offset := Sequence (last page) + 1\<rparr>"
      using fst_collect[of page opt assets] co pne nowrap by simp
    have cl': "call (CallSafeListUtxos opt) (SafeListUtxos c opt) r = (Inr page, r1)"
      using cl by (simp add: page_def)
    have step: "list_loop c opt assets r = list_loop c opt' assets' r1"
      using cl' pne co by (subst list_loop.simps) simp
    have srt: "sorted_wrt (<) (map Sequence page)" "sorted_wrt (<) (map Sequence R')"
      "\<forall>x \<in> set page. \<forall>y \<in> set R'. Sequence x < Sequence y"
      using less.prems(2) unfolding R by (auto simp: sorted_wrt_append)
    have a: "\<And>opt w. SafeListUtxos c opt w = (Inr (ledger_page ((pre @ page) @ R') opt), w)"
      unfolding full by (rule less.prems(1))
    have b: "sorted_wrt (<) (map Sequence ((pre @ page) @ R'))"
      unfolding full by (rule less.prems(2))
    have b': "\<forall>u \<in> set R'. Sequence u < 2 ^ 64 - 1"
      using less.prems(3) R by simp
    have c: "\<forall>u \<in> set (pre @ page). Sequence u < Offset opt'"
    proof
      fix u assume "u \<in> set (pre @ page)"
      then consider "u \<in> set pre" | "u \<in> set page" by auto
      then show "Sequence u < Offset opt'"
      proof cases
        case 1
        then have "Sequence u < Offset opt" using less.prems(4) by simp
        also have "Offset opt \<le> Sequence (last page)"
          using less.prems(5) lastin R by simp
        finally show ?thesis by (simp add: opt')
      next
        case 2
        then have "Sequence u \<le> Sequence (last page)" using srt(1) by (intro sorted_last_max)
        then show ?thesis by (simp add: opt')
      qed
    qed
    have d: "\<forall>u \<in> set R'. Offset opt' \<le> Sequence u"
      using srt(3) lastin by (auto simp: opt' Suc_le_eq)
    have e: "0 < Limit opt'" using less.prems(6) by (simp add: opt')
    have "length R' < length R" using False less.prems(6) by (simp add: R'_def P_def)
    from less.hyps[OF this a b b' c d e, of assets' r1]
    obtain r' evs where ih:
      "list_loop c opt' assets' r1 = Some (Inr (snd (collect R' (opt', assets'))), r')"
      "trace r' = trace r1 @ evs"
      "length (list_requests evs) = (length R' + Limit opt' - 1) div Limit opt' + 1"
      "list_requests evs \<noteq> []"
      "ledger_page (pre @ R) (last (list_requests evs)) = []"
      "\<forall>q \<in> set (butlast (list_requests evs)). ledger_page (pre @ R) q \<noteq> []"
      "concat (map (ledger_page (pre @ R)) (list_requests evs)) = R'"
      unfolding full by blast
    have res: "snd (collect R' (opt', assets')) = snd (collect R (opt, assets))"
      unfolding R by (simp add: collect_append co)
    have tr: "trace r' = trace r @ (CallSafeListUtxos opt # evs)"
      using ih(2) by (simp add: r1_def)
    have lim: "Limit opt' = P" by (simp add: opt' P_def)
    have cnt: "(length R + P - 1) div P = Suc ((length R' + P - 1) div P)"
    proof (cases "P \<le> length R")
      case True
      have "(length R + P - 1) div P = Suc ((length R - 1) div P)"
        using less.prems(6) True unfolding P_def by (intro ceil_step_ge)
      moreover have "length R' + P - 1 = length R - 1" using True by (simp add: R'_def)
      ultimately show ?thesis by simp
    next
      case lt: False
      have "(length R + P - 1) div P = 1"
        using False lt by (intro ceil_step_lt) simp_all
      moreover have "R' = []" using lt by (simp add: R'_def)
      moreover have "0 < P" using less.prems(6) by (simp add: P_def)
      ultimately show ?thesis by simp
    qed
    have n: "length (list_requests (CallSafeListUtxos opt # evs))
             = (length R + Limit opt - 1) div Limit opt + 1"
      using ih(3) cnt lim by (simp add: P_def)
    have pg: "ledger_page (pre @ R) opt = page" using ans by (simp add: page_def)
    have q1: "list_requests (CallSafeListUtxos opt # evs) \<noteq> []" by simp
    have q2: "ledger_page (pre @ R) (last (list_requests (CallSafeListUtxos opt # evs))) = []"
      using ih(4,5) by simp
    have q3: "\<forall>q \<in> set (butlast (list_requests (CallSafeListUtxos opt # evs))).
                ledger_page (pre @ R) q \<noteq> []"
      using ih(4,6) pg pne by simp
    have q4: "concat (map (ledger_page (pre @ R)) (list_requests (CallSafeListUtxos opt # evs))) = R"
      using ih(7) pg R by simp
    have q0: "list_loop c opt assets r = Some (Inr (snd (collect R (opt, assets))), r')"
      using step ih(1) res by simp
    show ?thesis
      by (rule exI[of _ r'], rule exI[of _ "CallSafeListUtxos opt # evs"])
        (intro conjI q0 tr n q1 q2 q3 q4)
  qed
qed

text \<open>
  Past the largest \<open>uint64\<close> the cursor wraps: a ledger that holds an output of sequence
  \<open>2^64 - 1\<close> answers every request with a page that is not empty, and the loop never ends.
\<close>

lemma list_loop_wraps_aux:
  fixes c :: "('w, 'k, 'key, 'tx, 'addr) sdk" and r :: "('w, 'k, 'addr) runner"
  assumes "list_loop c opt assets r = Some y"
  shows "\<not> ((\<forall>opt w. SafeListUtxos c opt w = (Inr (ledger_page ledger opt), w)) \<and>
            (\<exists>u \<in> set ledger. Sequence u = 2 ^ 64 - 1) \<and> 0 < Limit opt \<and> Offset opt < 2 ^ 64)"
proof (rule list_loop.raw_induct[where P = "\<lambda>c opt assets r y.
    \<not> ((\<forall>opt w. SafeListUtxos c opt w = (Inr (ledger_page ledger opt), w)) \<and>
            (\<exists>u \<in> set ledger. Sequence u = 2 ^ 64 - 1) \<and> 0 < Limit opt \<and> Offset opt < 2 ^ 64)",
    OF _ assms], goal_cases)
  case (1 ll c opt assets r y)
  note hyps = 1
  show ?case
  proof
    assume A: "(\<forall>opt w. SafeListUtxos c opt w = (Inr (ledger_page ledger opt), w)) \<and>
            (\<exists>u \<in> set ledger. Sequence u = 2 ^ 64 - 1) \<and> 0 < Limit opt \<and> Offset opt < 2 ^ 64"
    then obtain u where u: "u \<in> set ledger" "Sequence u = 2 ^ 64 - 1" by blast
    define page where "page = ledger_page ledger opt"
    define r1 where "r1 = r\<lparr>trace := trace r @ [CallSafeListUtxos opt], world := world r\<rparr>"
    have "u \<in> set (filter (\<lambda>u. Offset opt \<le> Sequence u) ledger)"
      using u A by simp
    then have "filter (\<lambda>u. Offset opt \<le> Sequence u) ledger \<noteq> []"
      by (metis empty_iff list.set(1))
    then have pne: "page \<noteq> []" using A by (simp add: page_def ledger_page_def)
    have cl: "call (CallSafeListUtxos opt) (SafeListUtxos c opt) r = (Inr page, r1)"
      using A by (simp add: call_eq r1_def page_def)
    obtain opt' assets' where co: "collect page (opt, assets) = (opt', assets')" by force
    have opt': "opt' = opt\<lparr>Offset := (Sequence (last page) + 1) mod 2 ^ 64\<rparr>"
      using fst_collect[of page opt assets] co pne by simp
    have "ll c opt' assets' r1 = Some y"
      using hyps(2) cl pne co by simp
    from hyps(1)[OF this] A show False by (simp add: opt')
  qed
qed

lemma list_loop_wraps:
  fixes c :: "('w, 'k, 'key, 'tx, 'addr) sdk" and r :: "('w, 'k, 'addr) runner"
  assumes "\<And>opt w. SafeListUtxos c opt w = (Inr (ledger_page ledger opt), w)"
    and "u \<in> set ledger" and "Sequence u = 2 ^ 64 - 1"
    and "0 < Limit opt" and "Offset opt < 2 ^ 64"
  shows "list_loop c opt assets r = None"
proof (cases "list_loop c opt assets r")
  case None
  then show ?thesis .
next
  case (Some y)
  from list_loop_wraps_aux[OF Some, of ledger] assms show ?thesis by blast
qed

text \<open>
  Claim C2, as the code has it. Let the ledger hold \<open>M\<close> unspent outputs with strictly
  increasing sequence numbers, all below \<open>2^64 - 1\<close>, and answer a request with the first
  \<open>Limit\<close> outputs whose sequence number is at least \<open>Offset\<close>. Then the enumeration loop,
  started at offset 0 with a page size \<open>P \<ge> 1\<close>, returns after exactly \<open>\<lceil>M / P\<rceil> + 1\<close>
  requests: the loop ends on the first empty page, so the last request is the one that
  comes back empty (the only request when \<open>M = 0\<close>) and every request before it comes back
  with outputs. The pages of the requests, one after the other, are the ledger. Every
  output is collected exactly once: the collected outputs are the ledger's as a multiset,
  no asset has two entries, and each asset holds its outputs in ledger order.
\<close>

theorem utxo_enumeration:
  fixes c :: "('w, 'k, 'key, 'tx, 'addr) sdk" and r :: "('w, 'k, 'addr) runner"
  assumes "\<And>opt w. SafeListUtxos c opt w = (Inr (ledger_page ledger opt), w)"
    and "sorted_wrt (<) (map Sequence ledger)"
    and "\<forall>u \<in> set ledger. Sequence u < 2 ^ 64 - 1"
    and "0 < Limit opt" and "Offset opt = 0"
  shows "\<exists>assets r' evs.
           list_loop c opt [] r = Some (Inr assets, r') \<and> trace r' = trace r @ evs \<and>
           int (length (list_requests evs))
             = \<lceil>rat_of_nat (length ledger) / rat_of_nat (Limit opt)\<rceil> + 1 \<and>
           list_requests evs \<noteq> [] \<and>
           ledger_page ledger (last (list_requests evs)) = [] \<and>
           (\<forall>q \<in> set (butlast (list_requests evs)). ledger_page ledger q \<noteq> []) \<and>
           concat (map (ledger_page ledger) (list_requests evs)) = ledger \<and>
           mset (concat (map snd assets)) = mset ledger \<and>
           distinct (map fst assets) \<and>
           (\<forall>a. assets_get assets a = filter (\<lambda>u. UtxoAssetID u = a) ledger)"
proof -
  define assets where "assets = snd (collect ledger (opt, []))"
  have "\<exists>r' evs. list_loop c opt [] r = Some (Inr (snd (collect ledger (opt, []))), r') \<and>
           trace r' = trace r @ evs \<and>
           length (list_requests evs) = (length ledger + Limit opt - 1) div Limit opt + 1 \<and>
           list_requests evs \<noteq> [] \<and>
           ledger_page ledger (last (list_requests evs)) = [] \<and>
           (\<forall>q \<in> set (butlast (list_requests evs)). ledger_page ledger q \<noteq> []) \<and>
           concat (map (ledger_page ledger) (list_requests evs)) = ledger"
    using list_loop_enumerates[of c "[]" ledger opt "[]" r] assms by simp
  then obtain r' evs where run: "list_loop c opt [] r = Some (Inr assets, r')"
    "trace r' = trace r @ evs"
    "length (list_requests evs) = (length ledger + Limit opt - 1) div Limit opt + 1"
    and pages: "list_requests evs \<noteq> []"
    "ledger_page ledger (last (list_requests evs)) = []"
    "\<forall>q \<in> set (butlast (list_requests evs)). ledger_page ledger q \<noteq> []"
    "concat (map (ledger_page ledger) (list_requests evs)) = ledger"
    unfolding assets_def by blast
  have 1: "int (length (list_requests evs))
             = \<lceil>rat_of_nat (length ledger) / rat_of_nat (Limit opt)\<rceil> + 1"
    using run(3) ceiling_div_nat[OF assms(4), of "length ledger"] by simp
  have 2: "mset (concat (map snd assets)) = mset ledger"
    unfolding assets_def by (simp add: mset_collect)
  have 3: "distinct (map fst assets)"
    unfolding assets_def by (rule distinct_collect) simp
  have 4: "\<forall>a. assets_get assets a = filter (\<lambda>u. UtxoAssetID u = a) ledger"
  proof
    fix a
    have "assets_get [] a = []" by (simp add: assets_get_def)
    then show "assets_get assets a = filter (\<lambda>u. UtxoAssetID u = a) ledger"
      unfolding assets_def by (simp add: assets_get_collect)
  qed
  show ?thesis
    by (rule exI[of _ assets], rule exI[of _ r'], rule exI[of _ evs])
      (intro conjI run(1,2) 1 pages 2 3 4)
qed

theorem utxo_enumeration_witness:
  "map_option (map_prod id (list_requests \<circ> trace))
     (list_loop (demo [] [demo_utxo ''btc'' 1, demo_utxo ''eth'' 2, demo_utxo ''btc'' 3] bob)
        \<lparr>Offset = 0, Limit = 2, Order = ''ASC'', State = ''unspent''\<rparr> []
        (demo_runner ''key:p'' ''key:s''))
   = Some (Inr [(''btc'', [demo_utxo ''btc'' 1, demo_utxo ''btc'' 3]),
                (''eth'', [demo_utxo ''eth'' 2])],
           [\<lparr>Offset = 0, Limit = 2, Order = ''ASC'', State = ''unspent''\<rparr>,
            \<lparr>Offset = 3, Limit = 2, Order = ''ASC'', State = ''unspent''\<rparr>,
            \<lparr>Offset = 4, Limit = 2, Order = ''ASC'', State = ''unspent''\<rparr>]) \<and>
   map (ledger_page [demo_utxo ''btc'' 1, demo_utxo ''eth'' 2, demo_utxo ''btc'' 3])
     [\<lparr>Offset = 0, Limit = 2, Order = ''ASC'', State = ''unspent''\<rparr>,
      \<lparr>Offset = 3, Limit = 2, Order = ''ASC'', State = ''unspent''\<rparr>,
      \<lparr>Offset = 4, Limit = 2, Order = ''ASC'', State = ''unspent''\<rparr>]
   = [[demo_utxo ''btc'' 1, demo_utxo ''eth'' 2], [demo_utxo ''btc'' 3], []] \<and>
   \<lceil>rat_of_nat (length [demo_utxo ''btc'' 1, demo_utxo ''eth'' 2, demo_utxo ''btc'' 3])
      / rat_of_nat 2\<rceil> + 1 = (3 :: int)"
proof -
  have a: "\<And>opt w.
      SafeListUtxos (demo [] [demo_utxo ''btc'' 1, demo_utxo ''eth'' 2, demo_utxo ''btc'' 3] bob) opt w =
        (Inr (ledger_page [demo_utxo ''btc'' 1, demo_utxo ''eth'' 2, demo_utxo ''btc'' 3] opt), w)"
    by (simp add: demo_def ledger_page_def)
  have b: "sorted_wrt (<)
      (map Sequence [demo_utxo ''btc'' 1, demo_utxo ''eth'' 2, demo_utxo ''btc'' 3])"
    by (simp add: demo_utxo_def)
  have b': "\<forall>u \<in> set [demo_utxo ''btc'' 1, demo_utxo ''eth'' 2, demo_utxo ''btc'' 3].
              Sequence u < 2 ^ 64 - 1"
    by (simp add: demo_utxo_def)
  have c: "0 < Limit \<lparr>Offset = 0, Limit = 2, Order = ''ASC'', State = ''unspent''\<rparr>"
    "Offset \<lparr>Offset = 0, Limit = 2, Order = ''ASC'', State = ''unspent''\<rparr> = 0"
    by simp_all
  have d: "\<lceil>(3::rat) / 2\<rceil> = 2" by (simp add: ceiling_unique)
  have e: "list_loop (demo [] [demo_utxo ''btc'' 1, demo_utxo ''eth'' 2, demo_utxo ''btc'' 3] bob)
        \<lparr>Offset = 0, Limit = 2, Order = ''ASC'', State = ''unspent''\<rparr> []
        (demo_runner ''key:p'' ''key:s'')
      = Some (Inr [(''btc'', [demo_utxo ''btc'' 1, demo_utxo ''btc'' 3]),
                (''eth'', [demo_utxo ''eth'' 2])],
           (demo_runner ''key:p'' ''key:s'')\<lparr>trace :=
             [CallSafeListUtxos \<lparr>Offset = 0, Limit = 2, Order = ''ASC'', State = ''unspent''\<rparr>,
              CallSafeListUtxos \<lparr>Offset = 3, Limit = 2, Order = ''ASC'', State = ''unspent''\<rparr>,
              CallSafeListUtxos \<lparr>Offset = 4, Limit = 2, Order = ''ASC'', State = ''unspent''\<rparr>]\<rparr>)"
    by (simp add: list_loop.simps call_eq collect_def demo_def demo_runner_def demo_utxo_def)
  have f: "map (ledger_page [demo_utxo ''btc'' 1, demo_utxo ''eth'' 2, demo_utxo ''btc'' 3])
     [\<lparr>Offset = 0, Limit = 2, Order = ''ASC'', State = ''unspent''\<rparr>,
      \<lparr>Offset = 3, Limit = 2, Order = ''ASC'', State = ''unspent''\<rparr>,
      \<lparr>Offset = 4, Limit = 2, Order = ''ASC'', State = ''unspent''\<rparr>]
   = [[demo_utxo ''btc'' 1, demo_utxo ''eth'' 2], [demo_utxo ''btc'' 3], []]"
    by (simp add: ledger_page_def demo_utxo_def)
  show ?thesis
    using utxo_enumeration [OF a b b' c, of "demo_runner ''key:p'' ''key:s''"] d e f
    by (simp add: demo_runner_def)
qed

text \<open>
  The count \<open>\<lceil>M / P\<rceil>\<close> of the claim as written fails for every \<open>M > 0\<close>: with one
  unspent output and the page size 500 of \<open>migrateSafeAssets\<close> the loop makes two
  requests, not one.
\<close>

theorem utxo_enumeration_requests_counterexample:
  "map_option (length \<circ> list_requests \<circ> trace \<circ> snd)
     (list_loop (demo [] [demo_utxo ''btc'' 1] bob)
        \<lparr>Offset = 0, Limit = 500, Order = ''ASC'', State = ''unspent''\<rparr> []
        (demo_runner ''key:p'' ''key:s''))
   = Some 2 \<and>
   \<lceil>rat_of_nat (length [demo_utxo ''btc'' 1]) / rat_of_nat 500\<rceil> = (1 :: int)"
proof -
  have "\<lceil>(1::rat) / 500\<rceil> = 1" by (simp add: ceiling_unique)
  then show ?thesis
    by (simp add: list_loop.simps call_eq collect_def demo_def demo_runner_def demo_utxo_def)
qed

subsection \<open>Saving and loading the keystore\<close>

lemma saveKeystore_perm:
  "saveKeystore c r = (res, r') \<Longrightarrow> map_option perm (files r' p) = map_option perm (files r p)"
  by (auto simp: saveKeystore_def os_OpenFile_WRONLY_def os_Write_def emit_def Let_def
      split: option.splits sum.splits if_splits)

text \<open>
  Claim C3. Let a file exist at the output path, with any content of any length, that the
  process may write and read, and let the encoder and the decoder agree on the record:
  the stream decoder, given the encoding followed by any further bytes, returns the
  record. Then \<open>saveKeystore\<close> succeeds; the file holds the encoding, followed by whatever
  the old content had beyond the encoding's length (the file is opened without
  truncation); a load of the same path returns exactly the saved record; and no file's
  permission bits have changed.
\<close>

theorem save_then_load:
  assumes "files r (output_path r) = Some f"
    and "MayWrite c (perm f)" and "MayRead c (perm f)"
    and "JsonEncode c (key r) = Inr data"
    and "\<And>rest. JsonDecode c (data @ rest) = Inr (key r)"
  shows "\<exists>r'. saveKeystore c r = (None, r') \<and>
           files r' (output_path r) = Some (f\<lparr>content := data @ drop (length data) (content f)\<rparr>) \<and>
           fst (loadKeystore c (output_path r) r') = Inr (key r) \<and>
           (\<forall>p. map_option perm (files r' p) = map_option perm (files r p))"
  using assms
  by (simp add: saveKeystore_def os_OpenFile_WRONLY_def os_Write_def loadKeystore_def os_Open_def
      emit_def Let_def)

theorem save_then_load_witness:
  "files (demo_runner ''key:p'' ''key:s'') ''keystore.json''
     = Some \<lparr>content = ''old contents, rather long'', perm = 384\<rparr> \<and>
   JsonEncode (demo [] [] bob) (key (demo_runner ''key:p'' ''key:s'')) = Inr ''key:p|key:s;'' \<and>
   map_prod id (\<lambda>r'. (files r' ''keystore.json'', fst (loadKeystore (demo [] [] bob) ''keystore.json'' r')))
     (saveKeystore (demo [] [] bob) (demo_runner ''key:p'' ''key:s''))
   = (None, Some \<lparr>content = ''key:p|key:s;, rather long'', perm = 384\<rparr>,
      Inr \<lparr>Embedded = (), Pin = ''key:p'', SpendKey = ''key:s''\<rparr>)"
proof -
  have a: "files (demo_runner ''key:p'' ''key:s'') (output_path (demo_runner ''key:p'' ''key:s''))
     = Some \<lparr>content = ''old contents, rather long'', perm = 384\<rparr>"
    by (simp add: demo_runner_def)
  have b: "MayWrite (demo [] [] bob) (perm \<lparr>content = ''old contents, rather long'', perm = 384\<rparr>)"
    "MayRead (demo [] [] bob) (perm \<lparr>content = ''old contents, rather long'', perm = 384\<rparr>)"
    by (simp_all add: demo_def)
  have c: "JsonEncode (demo [] [] bob) (key (demo_runner ''key:p'' ''key:s'')) = Inr ''key:p|key:s;''"
    by (simp add: demo_def demo_runner_def demo_JsonEncode_def)
  have d: "\<And>rest. JsonDecode (demo [] [] bob) (''key:p|key:s;'' @ rest)
      = Inr (key (demo_runner ''key:p'' ''key:s''))"
    by (simp add: demo_def demo_runner_def demo_JsonDecode_def)
  show ?thesis
    using save_then_load [OF a b c d] a c
    by (auto simp: demo_runner_def)
qed

subsection \<open>A rotated secret is written before the phase returns\<close>

lemma saveKeystore_cases:
  "saveKeystore c r = (res, r') \<Longrightarrow>
   key r' = key r \<and> output_path r' = output_path r \<and> receiver r' = receiver r \<and>
   world r' = world r \<and>
   (\<exists>evs. trace r' = trace r @ OsOpenFile (output_path r) # evs) \<and>
   (res = None \<longrightarrow> persisted c r') \<and>
   (res = None \<longleftrightarrow>
      (\<exists>f data. files r (output_path r) = Some f \<and> MayWrite c (perm f) \<and>
         JsonEncode c (key r) = Inr data))"
  by (auto simp: saveKeystore_def os_OpenFile_WRONLY_def os_Write_def emit_def Let_def persisted_def
      split: option.splits sum.splits if_splits)

lemma persisted_logln: "persisted c (logln msg args r) = persisted c r"
  by (simp add: persisted_def logln_def emit_def split: sum.split)

lemma updateTipPin_rotates:
  assumes "KeyFromString c (Pin (key r)) = Inl e0"
    and "GenerateKey c (world r) = (k, w1)"
    and "ModifyPin c (Pin (key r)) (KeyString c (KeyPublic c k)) w1 = (None, w2)"
    and "updateTipPin c r = (res, r')"
  shows "key r' = (key r)\<lparr>Pin := KeyString c k\<rparr> \<and>
     (\<exists>evs. trace r' = trace r @
        [Log ''start update tip pin'' [], CallGenerateKey, Log ''new pin:'' [S (KeyString c k)],
         CallModifyPin (Pin (key r)) (KeyString c (KeyPublic c k)), OsOpenFile (output_path r)] @ evs) \<and>
     (res = None \<longrightarrow> persisted c r') \<and>
     (res = None \<longleftrightarrow>
        (\<exists>f data. files r (output_path r) = Some f \<and> MayWrite c (perm f) \<and>
           JsonEncode c ((key r)\<lparr>Pin := KeyString c k\<rparr>) = Inr data))"
proof -
  define rm where "rm = r\<lparr>trace := trace r @
        [Log ''start update tip pin'' [], CallGenerateKey, Log ''new pin:'' [S (KeyString c k)],
         CallModifyPin (Pin (key r)) (KeyString c (KeyPublic c k))],
        world := w2, key := (key r)\<lparr>Pin := KeyString c k\<rparr>\<rparr>"
  obtain res5 r5 where sv: "saveKeystore c rm = (res5, r5)" by force
  have up: "updateTipPin c r = (case (res5, r5) of (Some err, r5) \<Rightarrow> (Some err, r5)
                 | (None, r5) \<Rightarrow> (None, logln ''update tip pin done'' [] r5))"
    using assms(1-3) sv by (simp add: updateTipPin_def call_eq logln_def emit_def rm_def)
  note s = saveKeystore_cases[OF sv]
  show ?thesis
  proof (cases res5)
    case None
    with up assms(4) have r': "res = None" "r' = logln ''update tip pin done'' [] r5" by simp_all
    have "persisted c r'" using s None by (simp add: r' persisted_logln)
    then show ?thesis using s None r' by (auto simp: rm_def logln_def emit_def)
  next
    case (Some err)
    with up assms(4) have r': "res = Some err" "r' = r5" by simp_all
    then show ?thesis using s Some by (auto simp: rm_def)
  qed
qed


lemma migrateToSafe_rotates:
  assumes "KeyFromString c (SpendKey (key r)) = Inl e0"
    and "GenerateKey c (world r) = (k, w1)"
    and "SafeMigrate c (KeyString c k) (Pin (key r)) w1 = (None, w2)"
    and "migrateToSafe c r = (res, r')"
  shows "key r' = (key r)\<lparr>SpendKey := KeyString c k\<rparr> \<and>
     (\<exists>evs. trace r' = trace r @
        [Log ''start migrate safe'' [], CallGenerateKey, Log ''new spend key:'' [S (KeyString c k)],
         CallSafeMigrate (KeyString c k) (Pin (key r)), OsOpenFile (output_path r)] @ evs) \<and>
     (res = None \<longrightarrow> persisted c r') \<and>
     (res = None \<longleftrightarrow>
        (\<exists>f data. files r (output_path r) = Some f \<and> MayWrite c (perm f) \<and>
           JsonEncode c ((key r)\<lparr>SpendKey := KeyString c k\<rparr>) = Inr data))"
proof -
  define rm where "rm = r\<lparr>trace := trace r @
        [Log ''start migrate safe'' [], CallGenerateKey, Log ''new spend key:'' [S (KeyString c k)],
         CallSafeMigrate (KeyString c k) (Pin (key r))],
        world := w2, key := (key r)\<lparr>SpendKey := KeyString c k\<rparr>\<rparr>"
  obtain res5 r5 where sv: "saveKeystore c rm = (res5, r5)" by force
  have up: "migrateToSafe c r = (case (res5, r5) of (Some err, r5) \<Rightarrow> (Some err, r5)
                 | (None, r5) \<Rightarrow> (None, logln ''migrate safe done'' [] r5))"
    using assms(1-3) sv by (simp add: migrateToSafe_def call_eq logln_def emit_def rm_def Let_def)
  note s = saveKeystore_cases[OF sv]
  show ?thesis
  proof (cases res5)
    case None
    with up assms(4) have r': "res = None" "r' = logln ''migrate safe done'' [] r5" by simp_all
    have "persisted c r'" using s None by (simp add: r' persisted_logln)
    then show ?thesis using s None r' by (auto simp: rm_def logln_def emit_def)
  next
    case (Some err)
    with up assms(4) have r': "res = Some err" "r' = r5" by simp_all
    then show ?thesis using s Some by (auto simp: rm_def)
  qed
qed

text \<open>
  Claim C5. Take a run of \<open>updateTipPin\<close> on a PIN that is not yet a key in which the
  ledger accepts \<open>ModifyPin\<close>. When the phase returns, the record in memory holds the new
  secret, and the trace shows the save starting right after the ledger call: nothing comes
  between them. The phase returns success exactly when the keystore file could be opened
  for writing and the record encoded, and then the file holds the new record; otherwise it
  returns the save's error, and a run of the phases stops there with the fatal message of
  this phase, in the state the phase left. The same holds for \<open>migrateToSafe\<close>, the
  spend key and \<open>SafeMigrate\<close>.
\<close>

theorem rotation_persisted_before_return:
  "(KeyFromString c (Pin (key r)) = Inl e0 \<and> GenerateKey c (world r) = (k, w1) \<and>
    ModifyPin c (Pin (key r)) (KeyString c (KeyPublic c k)) w1 = (None, w2) \<and>
    updateTipPin c r = (res, r') \<longrightarrow>
      key r' = (key r)\<lparr>Pin := KeyString c k\<rparr> \<and>
      (\<exists>evs. trace r' = trace r @
         [Log ''start update tip pin'' [], CallGenerateKey, Log ''new pin:'' [S (KeyString c k)],
          CallModifyPin (Pin (key r)) (KeyString c (KeyPublic c k)), OsOpenFile (output_path r)]
         @ evs) \<and>
      (res = None \<longrightarrow> persisted c r') \<and>
      (res = None \<longleftrightarrow>
         (\<exists>f data. files r (output_path r) = Some f \<and> MayWrite c (perm f) \<and>
            JsonEncode c ((key r)\<lparr>Pin := KeyString c k\<rparr>) = Inr data)) \<and>
      (\<forall>L r0 err. migrateLegacyAssets c r0 = (None, r) \<and> res = Some err \<longrightarrow>
         phases c L r0 = Some (Fatal ''update tip pin failed:'' (Some err), r'))) \<and>
   (KeyFromString c (SpendKey (key s)) = Inl e1 \<and> GenerateKey c (world s) = (k', v1) \<and>
    SafeMigrate c (KeyString c k') (Pin (key s)) v1 = (None, v2) \<and>
    migrateToSafe c s = (res', s') \<longrightarrow>
      key s' = (key s)\<lparr>SpendKey := KeyString c k'\<rparr> \<and>
      (\<exists>evs. trace s' = trace s @
         [Log ''start migrate safe'' [], CallGenerateKey, Log ''new spend key:'' [S (KeyString c k')],
          CallSafeMigrate (KeyString c k') (Pin (key s)), OsOpenFile (output_path s)]
         @ evs) \<and>
      (res' = None \<longrightarrow> persisted c s') \<and>
      (res' = None \<longleftrightarrow>
         (\<exists>f data. files s (output_path s) = Some f \<and> MayWrite c (perm f) \<and>
            JsonEncode c ((key s)\<lparr>SpendKey := KeyString c k'\<rparr>) = Inr data)) \<and>
      (\<forall>L r0 r1 err. migrateLegacyAssets c r0 = (None, r1) \<and> updateTipPin c r1 = (None, s) \<and>
          res' = Some err \<longrightarrow>
         phases c L r0 = Some (Fatal ''migrate safe failed:'' (Some err), s')))"
proof (rule conjI; rule impI)
  assume a: "KeyFromString c (Pin (key r)) = Inl e0 \<and> GenerateKey c (world r) = (k, w1) \<and>
    ModifyPin c (Pin (key r)) (KeyString c (KeyPublic c k)) w1 = (None, w2) \<and>
    updateTipPin c r = (res, r')"
  then have up: "updateTipPin c r = (res, r')" by simp
  have ph: "\<forall>L r0 err. migrateLegacyAssets c r0 = (None, r) \<and> res = Some err \<longrightarrow>
         phases c L r0 = Some (Fatal ''update tip pin failed:'' (Some err), r')"
    using up by (simp add: phases_def)
  from a have a1: "KeyFromString c (Pin (key r)) = Inl e0"
    and a2: "GenerateKey c (world r) = (k, w1)"
    and a3: "ModifyPin c (Pin (key r)) (KeyString c (KeyPublic c k)) w1 = (None, w2)"
    by simp_all
  have "key r' = (key r)\<lparr>Pin := KeyString c k\<rparr> \<and>
     (\<exists>evs. trace r' = trace r @
        [Log ''start update tip pin'' [], CallGenerateKey, Log ''new pin:'' [S (KeyString c k)],
         CallModifyPin (Pin (key r)) (KeyString c (KeyPublic c k)), OsOpenFile (output_path r)] @ evs) \<and>
     (res = None \<longrightarrow> persisted c r') \<and>
     (res = None \<longleftrightarrow>
        (\<exists>f data. files r (output_path r) = Some f \<and> MayWrite c (perm f) \<and>
           JsonEncode c ((key r)\<lparr>Pin := KeyString c k\<rparr>) = Inr data))"
    by (rule updateTipPin_rotates[OF a1 a2 a3 up])
  with ph show "key r' = (key r)\<lparr>Pin := KeyString c k\<rparr> \<and>
      (\<exists>evs. trace r' = trace r @
         [Log ''start update tip pin'' [], CallGenerateKey, Log ''new pin:'' [S (KeyString c k)],
          CallModifyPin (Pin (key r)) (KeyString c (KeyPublic c k)), OsOpenFile (output_path r)]
         @ evs) \<and>
      (res = None \<longrightarrow> persisted c r') \<and>
      (res = None \<longleftrightarrow>
         (\<exists>f data. files r (output_path r) = Some f \<and> MayWrite c (perm f) \<and>
            JsonEncode c ((key r)\<lparr>Pin := KeyString c k\<rparr>) = Inr data)) \<and>
      (\<forall>L r0 err. migrateLegacyAssets c r0 = (None, r) \<and> res = Some err \<longrightarrow>
         phases c L r0 = Some (Fatal ''update tip pin failed:'' (Some err), r'))"
    by (intro conjI) simp_all
next
  assume a: "KeyFromString c (SpendKey (key s)) = Inl e1 \<and> GenerateKey c (world s) = (k', v1) \<and>
    SafeMigrate c (KeyString c k') (Pin (key s)) v1 = (None, v2) \<and>
    migrateToSafe c s = (res', s')"
  then have up: "migrateToSafe c s = (res', s')" by simp
  have ph: "\<forall>L r0 r1 err. migrateLegacyAssets c r0 = (None, r1) \<and> updateTipPin c r1 = (None, s) \<and>
          res' = Some err \<longrightarrow>
         phases c L r0 = Some (Fatal ''migrate safe failed:'' (Some err), s')"
    using up by (simp add: phases_def)
  from a have a1: "KeyFromString c (SpendKey (key s)) = Inl e1"
    and a2: "GenerateKey c (world s) = (k', v1)"
    and a3: "SafeMigrate c (KeyString c k') (Pin (key s)) v1 = (None, v2)"
    by simp_all
  have "key s' = (key s)\<lparr>SpendKey := KeyString c k'\<rparr> \<and>
      (\<exists>evs. trace s' = trace s @
         [Log ''start migrate safe'' [], CallGenerateKey, Log ''new spend key:'' [S (KeyString c k')],
          CallSafeMigrate (KeyString c k') (Pin (key s)), OsOpenFile (output_path s)]
         @ evs) \<and>
      (res' = None \<longrightarrow> persisted c s') \<and>
      (res' = None \<longleftrightarrow>
         (\<exists>f data. files s (output_path s) = Some f \<and> MayWrite c (perm f) \<and>
            JsonEncode c ((key s)\<lparr>SpendKey := KeyString c k'\<rparr>) = Inr data))"
    by (rule migrateToSafe_rotates[OF a1 a2 a3 up])
  with ph show "key s' = (key s)\<lparr>SpendKey := KeyString c k'\<rparr> \<and>
      (\<exists>evs. trace s' = trace s @
         [Log ''start migrate safe'' [], CallGenerateKey, Log ''new spend key:'' [S (KeyString c k')],
          CallSafeMigrate (KeyString c k') (Pin (key s)), OsOpenFile (output_path s)]
         @ evs) \<and>
      (res' = None \<longrightarrow> persisted c s') \<and>
      (res' = None \<longleftrightarrow>
         (\<exists>f data. files s (output_path s) = Some f \<and> MayWrite c (perm f) \<and>
            JsonEncode c ((key s)\<lparr>SpendKey := KeyString c k'\<rparr>) = Inr data)) \<and>
      (\<forall>L r0 r1 err. migrateLegacyAssets c r0 = (None, r1) \<and> updateTipPin c r1 = (None, s) \<and>
          res' = Some err \<longrightarrow>
         phases c L r0 = Some (Fatal ''migrate safe failed:'' (Some err), s'))"
    by (intro conjI) simp_all
qed


theorem rotation_persisted_before_return_witness:
  "KeyFromString (demo [] [] bob) (Pin (key (demo_runner ''1234'' []))) = Inl (External ''invalid key'') \<and>
   map_prod id (\<lambda>r'. (key r', files r' ''keystore.json'', persisted (demo [] [] bob) r'))
     (updateTipPin (demo [] [] bob) (demo_runner ''1234'' []))
   = (None, \<lparr>Embedded = (), Pin = ''key:fresh'', SpendKey = []\<rparr>,
      Some \<lparr>content = ''key:fresh|;s, rather long'', perm = 384\<rparr>, True) \<and>
   KeyFromString (demo [] [] bob) (SpendKey (key (demo_runner ''key:p'' []))) = Inl (External ''invalid key'') \<and>
   map_prod id (\<lambda>r'. (key r', files r' ''keystore.json'', persisted (demo [] [] bob) r'))
     (migrateToSafe (demo [] [] bob) (demo_runner ''key:p'' []))
   = (None, \<lparr>Embedded = (), Pin = ''key:p'', SpendKey = ''key:fresh''\<rparr>,
      Some \<lparr>content = ''key:p|key:fresh;ther long'', perm = 384\<rparr>, True) \<and>
   map_prod id key (updateTipPin (demo [] [] bob) ((demo_runner ''1234'' [])\<lparr>files := Map.empty\<rparr>))
   = (Some (Errorf ''open keystore failed: %w'' [] (External ''no such file or directory'')),
      \<lparr>Embedded = (), Pin = ''key:fresh'', SpendKey = []\<rparr>)"
  using rotation_persisted_before_return
    [where c = "demo [] [] bob" and r = "demo_runner ''1234'' []"
       and s = "demo_runner ''key:p'' []" and k = "''key:fresh''" and k' = "''key:fresh''"
       and ?w1.0 = "()" and ?w2.0 = "()" and ?v1.0 = "()" and ?v2.0 = "()"
       and ?e0.0 = "External ''invalid key''" and ?e1.0 = "External ''invalid key''"]
  by (simp add: updateTipPin_def migrateToSafe_def saveKeystore_def os_OpenFile_WRONLY_def
      os_Write_def call_eq logln_def emit_def Let_def persisted_def
      demo_def demo_runner_def demo_KeyFromString_def demo_JsonEncode_def)

subsection \<open>Draining the legacy balances\<close>

lemma transfers_append: "transfers (xs @ ys) = transfers xs @ transfers ys"
  by (induction xs rule: transfers.induct) simp_all

lemma transfer_loop_transfers:
  fixes r :: "('w, 'k, 'addr) runner"
  shows "transfer_loop c assets r = (res, r') \<Longrightarrow>
   \<exists>evs n. trace r' = trace r @ evs \<and>
     transfers evs = take n (map (\<lambda>a. (AssetID a, receiver r, Balance a)) assets) \<and>
     (assets \<noteq> [] \<longrightarrow> 0 < n) \<and>
     (res = None \<longrightarrow> transfers evs = map (\<lambda>a. (AssetID a, receiver r, Balance a)) assets)"
proof (induction assets arbitrary: r)
  case Nil
  then show ?case by simp
next
  case (Cons asset rest)
  define r2 where "r2 = r\<lparr>trace := trace r @
      [Log ''migrating legacy asset'' [D (Balance asset), S (Symbol asset)], CallRandomTraceID],
      world := snd (RandomTraceID c (world r))\<rparr>"
  define t where "t = \<lparr>TransferAssetID = AssetID asset, OpponentID = receiver r,
                 TransferAmount = Balance asset, TraceID = fst (RandomTraceID c (world r)),
                 TransferMemo = ''migrate by mixin-migrate''\<rparr>"
  define r3 where "r3 = r2\<lparr>trace := trace r2 @ [CallTransfer t (Pin (key r))],
      world := snd (Transfer c t (Pin (key r)) (world r2))\<rparr>"
  have tr3: "trace r3 = trace r @
      [Log ''migrating legacy asset'' [D (Balance asset), S (Symbol asset)], CallRandomTraceID,
       CallTransfer t (Pin (key r))]"
    by (simp add: r3_def r2_def)
  have t3: "transfers [Log ''migrating legacy asset'' [D (Balance asset), S (Symbol asset)],
       CallRandomTraceID, CallTransfer t (Pin (key r))] = [(AssetID asset, receiver r, Balance asset)]"
    by (simp add: t_def)
  show ?case
  proof (cases "fst (Transfer c t (Pin (key r)) (world r2))")
    case (Inl err)
    then have "transfer_loop c (asset # rest) r =
        (Some (Errorf ''transfer %s %s failed: %w'' [D (Balance asset), S (Symbol asset)] err), r3)"
      by (simp add: call_eq logln_def emit_def Let_def r2_def r3_def t_def split: prod.splits)
    with Cons.prems have "r' = r3" "res \<noteq> None" by auto
    then show ?thesis using tr3 t3
      by (intro exI[of _ "[Log ''migrating legacy asset'' [D (Balance asset), S (Symbol asset)],
            CallRandomTraceID, CallTransfer t (Pin (key r))]"] exI[of _ 1]) auto
  next
    case (Inr snapshot)
    define r4 where "r4 = logln ''migrated legacy asset''
                [D (Balance asset), S (Symbol asset), S ''snapshot'', S (SnapshotID snapshot)] r3"
    have "transfer_loop c (asset # rest) r = transfer_loop c rest r4"
      using Inr
      by (simp add: call_eq logln_def emit_def Let_def r2_def r3_def r4_def t_def split: prod.splits)
    with Cons.prems have "transfer_loop c rest r4 = (res, r')" by simp
    from Cons.IH[OF this] obtain evs n where ih:
      "trace r' = trace r4 @ evs"
      "transfers evs = take n (map (\<lambda>a. (AssetID a, receiver r4, Balance a)) rest)"
      "res = None \<longrightarrow> transfers evs = map (\<lambda>a. (AssetID a, receiver r4, Balance a)) rest"
      by blast
    have rc: "receiver r4 = receiver r" by (simp add: r4_def r3_def r2_def logln_def emit_def)
    define pre :: "'addr event list" where "pre = [Log ''migrating legacy asset'' [D (Balance asset), S (Symbol asset)],
       CallRandomTraceID, CallTransfer t (Pin (key r)),
       Log ''migrated legacy asset''
                [D (Balance asset), S (Symbol asset), S ''snapshot'', S (SnapshotID snapshot)]]"
    have tr4: "trace r4 = trace r @ pre"
      by (simp add: r4_def logln_def emit_def tr3 pre_def)
    have tp: "transfers pre = [(AssetID asset, receiver r, Balance asset)]"
      by (simp add: pre_def t_def)
    show ?thesis
      by (rule exI[of _ "pre @ evs"], rule exI[of _ "Suc n"])
        (use ih tr4 tp rc in \<open>simp add: transfers_append\<close>)
  qed
qed

lemma drop_Suc_eq: "drop n ys = drop n xs \<Longrightarrow> drop (Suc n) ys = drop (Suc n) xs"
  by (metis drop_Suc tl_drop)

lemma compact_inv:
  "n \<le> length xs \<Longrightarrow>
   (case fold compact_step [0..<n] (xs, 0) of (ys, idx) \<Rightarrow>
      idx \<le> n \<and> length ys = length xs \<and> take idx ys = filter (\<lambda>a. Balance a \<noteq> 0) (take n xs)
      \<and> drop n ys = drop n xs)"
proof (induction n)
  case 0
  then show ?case by simp
next
  case (Suc n)
  obtain ys idx where f: "fold compact_step [0..<n] (xs, 0) = (ys, idx)" by force
  with Suc have ih: "idx \<le> n" "length ys = length xs"
    "take idx ys = filter (\<lambda>a. Balance a \<noteq> 0) (take n xs)" "drop n ys = drop n xs"
    by auto
  have n: "n < length xs" using Suc.prems by simp
  have "ys ! n = hd (drop n ys)" using n ih(2) by (simp add: hd_drop_conv_nth)
  also have "\<dots> = xs ! n" using n ih(4) by (simp add: hd_drop_conv_nth)
  finally have yn: "ys ! n = xs ! n" .
  have d: "drop (Suc n) ys = drop (Suc n) xs" by (rule drop_Suc_eq[OF ih(4)])
  have step: "fold compact_step [0..<Suc n] (xs, 0) = compact_step n (ys, idx)"
    using f by simp
  show ?case unfolding step
  proof (cases "Balance (xs ! n) = 0")
    case True
    then show "case compact_step n (ys, idx) of (ys, idx) \<Rightarrow>
      idx \<le> Suc n \<and> length ys = length xs \<and>
      take idx ys = filter (\<lambda>a. Balance a \<noteq> 0) (take (Suc n) xs) \<and>
      drop (Suc n) ys = drop (Suc n) xs" using ih n yn d
      by (simp add: compact_step_def take_Suc_conv_app_nth)
  next
    case False
    have "take (Suc idx) (ys[idx := xs ! n]) = take idx ys @ [xs ! n]"
      using ih n by (simp add: take_Suc_conv_app_nth)
    moreover have "drop (Suc n) (ys[idx := xs ! n]) = drop (Suc n) xs"
      using ih d by simp
    ultimately show "case compact_step n (ys, idx) of (ys, idx) \<Rightarrow>
      idx \<le> Suc n \<and> length ys = length xs \<and>
      take idx ys = filter (\<lambda>a. Balance a \<noteq> 0) (take (Suc n) xs) \<and>
      drop (Suc n) ys = drop (Suc n) xs" using False ih n yn
      by (simp add: compact_step_def take_Suc_conv_app_nth)
  qed
qed

lemma compact_filter: "compact assets = filter (\<lambda>a. Balance a \<noteq> 0) assets"
  using compact_inv[of "length assets" assets]
  by (auto simp: compact_def split: prod.splits)

text \<open>
  Claim C7. Let the ledger list the legacy balances \<open>assets\<close>, none of them negative.
  The transfers the phase asks for are, in order, those for the assets with a strictly
  positive balance, each to the receiver and for the asset's full balance, up to the first
  transfer the ledger refuses: none is for a zero balance, none is repeated, and at least
  the first one is asked for when there is such an asset. When the phase returns success
  they are all of them. (The code's test is \<open>IsZero\<close>: for balances that cannot be
  negative, not zero is strictly positive.)
\<close>

theorem legacy_transfers:
  fixes r :: "('w, 'k, 'addr) runner"
  assumes "ReadAssets c (world r) = (Inr assets, w)"
    and "\<forall>a \<in> set assets. 0 \<le> Balance a"
    and "migrateLegacyAssets c r = (res, r')"
  shows "\<exists>evs n. trace r' = trace r @ evs \<and>
     transfers evs =
       take n (map (\<lambda>a. (AssetID a, receiver r, Balance a)) (filter (\<lambda>a. 0 < Balance a) assets)) \<and>
     (filter (\<lambda>a. 0 < Balance a) assets \<noteq> [] \<longrightarrow> 0 < n) \<and>
     (res = None \<longrightarrow>
        transfers evs =
          map (\<lambda>a. (AssetID a, receiver r, Balance a)) (filter (\<lambda>a. 0 < Balance a) assets))"
proof -
  define pos where "pos = filter (\<lambda>a. 0 < Balance a) assets"
  have cp: "compact assets = pos"
    unfolding compact_filter pos_def using assms(2) by (intro filter_cong) auto
  define r1 where "r1 = r\<lparr>trace := trace r @ [CallReadAssets], world := w\<rparr>"
  have cl: "call CallReadAssets (ReadAssets c) r = (Inr assets, r1)"
    using assms(1) by (simp add: call_eq r1_def)
  show ?thesis
  proof (cases "pos = []")
    case True
    then have "migrateLegacyAssets c r = (None, logln ''no legacy assets'' [] r1)"
      using cl cp by (simp add: migrateLegacyAssets_def)
    with assms(3) have "trace r' = trace r @ [CallReadAssets, Log ''no legacy assets'' []]"
      by (auto simp: r1_def logln_def emit_def)
    then show ?thesis using True unfolding pos_def[symmetric]
      by (intro exI[of _ "[CallReadAssets, Log ''no legacy assets'' []]"] exI[of _ 0]) simp
  next
    case False
    define r2 where "r2 = logln ''start migrating %d legacy assets'' [I (int (length pos))] r1"
    obtain res3 r3 where tl: "transfer_loop c pos r2 = (res3, r3)" by force
    have m: "migrateLegacyAssets c r =
        (case (res3, r3) of (Some err, r2) \<Rightarrow> (Some err, r2)
         | (None, r2) \<Rightarrow> (None, logln ''migrate legacy assets done'' [] r2))"
      using cl cp False tl by (simp add: migrateLegacyAssets_def r2_def)
    have rc: "receiver r2 = receiver r" by (simp add: r2_def r1_def logln_def emit_def)
    from transfer_loop_transfers[OF tl] obtain evs n where lp0:
      "trace r3 = trace r2 @ evs"
      "transfers evs = take n (map (\<lambda>a. (AssetID a, receiver r2, Balance a)) pos)"
      "pos \<noteq> [] \<longrightarrow> 0 < n"
      "res3 = None \<longrightarrow> transfers evs = map (\<lambda>a. (AssetID a, receiver r2, Balance a)) pos"
      by blast
    have lp: "trace r3 = trace r2 @ evs"
      "transfers evs = take n (map (\<lambda>a. (AssetID a, receiver r, Balance a)) pos)"
      "0 < n"
      "res3 = None \<longrightarrow> transfers evs = map (\<lambda>a. (AssetID a, receiver r, Balance a)) pos"
      using lp0 False unfolding rc by blast+
    have t2: "trace r2 = trace r @
        [CallReadAssets, Log ''start migrating %d legacy assets'' [I (int (length pos))]]"
      by (simp add: r2_def r1_def logln_def emit_def)
    show ?thesis
    proof (cases res3)
      case None
      with m assms(3) have "res = None" "r' = logln ''migrate legacy assets done'' [] r3" by simp_all
      then have "trace r' = trace r @
          ([CallReadAssets, Log ''start migrating %d legacy assets'' [I (int (length pos))]]
            @ evs @ [Log ''migrate legacy assets done'' []])"
        using lp(1) t2 by (simp add: logln_def emit_def)
      moreover have "transfers
          ([CallReadAssets, Log ''start migrating %d legacy assets'' [I (int (length pos))]]
            @ evs @ [Log ''migrate legacy assets done'' []]) = transfers evs"
        by (simp add: transfers_append)
      ultimately show ?thesis using lp None unfolding pos_def[symmetric]
        by (intro exI[of _ "[CallReadAssets, Log ''start migrating %d legacy assets'' [I (int (length pos))]]
            @ evs @ [Log ''migrate legacy assets done'' []]"] exI[of _ n]) simp
    next
      case (Some err)
      with m assms(3) have "res = Some err" "r' = r3" by simp_all
      then have "trace r' = trace r @
          ([CallReadAssets, Log ''start migrating %d legacy assets'' [I (int (length pos))]] @ evs)"
        using lp(1) t2 by simp
      moreover have "transfers
          ([CallReadAssets, Log ''start migrating %d legacy assets'' [I (int (length pos))]] @ evs)
          = transfers evs"
        by (simp add: transfers_append)
      ultimately show ?thesis using lp \<open>res = Some err\<close> unfolding pos_def[symmetric]
        by (intro exI[of _ "[CallReadAssets, Log ''start migrating %d legacy assets'' [I (int (length pos))]]
            @ evs"] exI[of _ n]) simp
    qed
  qed
qed

theorem legacy_transfers_witness:
  "ReadAssets (demo demo_legacy [] bob) (world (demo_runner ''1234'' [])) = (Inr demo_legacy, ()) \<and>
   list_all (\<lambda>a. 0 \<le> Balance a) demo_legacy \<and>
   map_prod id (transfers \<circ> trace) (migrateLegacyAssets (demo demo_legacy [] bob) (demo_runner ''1234'' []))
     = (None, [(''assetB'', ''bob'', 25 / 2)]) \<and>
   map_prod id (transfers \<circ> trace)
     (migrateLegacyAssets
        ((demo demo_legacy [] bob)\<lparr>Transfer := \<lambda>t pin w. (Inl (External ''rejected''), w)\<rparr>)
        (demo_runner ''1234'' []))
     = (Some (Errorf ''transfer %s %s failed: %w'' [D (25 / 2), S ''B''] (External ''rejected'')),
        [(''assetB'', ''bob'', 25 / 2)])"
proof -
  have a: "ReadAssets (demo demo_legacy [] bob) (world (demo_runner ''1234'' [])) = (Inr demo_legacy, ())"
    by (simp add: demo_def)
  have b: "\<forall>a \<in> set demo_legacy. 0 \<le> Balance a" by (simp add: demo_legacy_def)
  obtain res r' where c: "migrateLegacyAssets (demo demo_legacy [] bob) (demo_runner ''1234'' []) = (res, r')"
    by force
  show ?thesis
    using legacy_transfers [OF a b c] a
    by (simp add: migrateLegacyAssets_def compact_filter call_eq logln_def emit_def Let_def
        demo_def demo_runner_def demo_legacy_def)
qed

subsection \<open>The spend key when the drain begins\<close>

lemma settle_errors:
  "settle c k spends r = (Some err, r') \<Longrightarrow> \<not> is_invalid_spend_key err"
  by (auto simp: settle_def call_eq Let_def is_invalid_spend_key_def
      split: prod.splits sum.splits option.splits)

lemma spend_loop_frame_aux:
  assumes "spend_loop c L k utxos idx r = Some y"
  shows "key (snd y) = key r \<and> files (snd y) = files r \<and> output_path (snd y) = output_path r \<and>
   receiver (snd y) = receiver r \<and> (\<forall>err. fst y = Some err \<longrightarrow> \<not> is_invalid_spend_key err)"
proof (rule spend_loop.raw_induct[where P = "\<lambda>c L k utxos idx r y.
   key (snd y) = key r \<and> files (snd y) = files r \<and> output_path (snd y) = output_path r \<and>
   receiver (snd y) = receiver r \<and> (\<forall>err. fst y = Some err \<longrightarrow> \<not> is_invalid_spend_key err)",
   OF _ assms], goal_cases)
  case (1 sl c L k utxos idx r y)
  note hyps = 1
  show ?case
  proof (cases "idx < int (length utxos)")
    case False
    with hyps(2) show ?thesis by auto
  next
    case True
    show ?thesis
    proof (cases "slice utxos idx (min (int (length utxos)) (idx + L))")
      case None
      with True hyps(2) show ?thesis by (auto simp: is_invalid_spend_key_def)
    next
      case (Some spends)
      obtain res1 r1 where st: "settle c k spends r = (res1, r1)" by force
      note fr = settle_trace(2-5)[OF st]
      show ?thesis
      proof (cases res1)
        case None
        with True Some st hyps(2) have "sl c L k utxos (idx + L) r1 = Some y"
          by simp
        from hyps(1)[OF this] fr show ?thesis by simp
      next
        case (Some err)
        with True \<open>slice utxos idx (min (int (length utxos)) (idx + L)) = Some spends\<close> st hyps(2)
        have "y = (Some err, r1)" by simp
        with fr settle_errors[of c k spends r err r1] st Some show ?thesis by simp
      qed
    qed
  qed
qed

lemma spend_loop_frame:
  "spend_loop c L k utxos idx r = Some (res, r') \<Longrightarrow>
   key r' = key r \<and> files r' = files r \<and> output_path r' = output_path r \<and>
   receiver r' = receiver r \<and> (\<forall>err. res = Some err \<longrightarrow> \<not> is_invalid_spend_key err)"
  using spend_loop_frame_aux[of c L k utxos idx r "(res, r')"] by simp

lemma list_loop_frame_aux:
  assumes "list_loop c opt assets r = Some y"
  shows "key (snd y) = key r \<and> files (snd y) = files r \<and> output_path (snd y) = output_path r \<and>
   receiver (snd y) = receiver r \<and> (\<forall>err. fst y = Inl err \<longrightarrow> \<not> is_invalid_spend_key err)"
proof (rule list_loop.raw_induct[where P = "\<lambda>c opt assets r y.
   key (snd y) = key r \<and> files (snd y) = files r \<and> output_path (snd y) = output_path r \<and>
   receiver (snd y) = receiver r \<and> (\<forall>err. fst y = Inl err \<longrightarrow> \<not> is_invalid_spend_key err)",
   OF _ assms], goal_cases)
  case (1 ll c opt assets r y)
  note hyps = 1
  obtain res1 r1 where cl: "call (CallSafeListUtxos opt) (SafeListUtxos c opt) r = (res1, r1)"
    by force
  then have fr: "key r1 = key r" "files r1 = files r" "output_path r1 = output_path r"
    "receiver r1 = receiver r"
    by (auto simp: call_eq)
  show ?case
  proof (cases res1)
    case (Inl err)
    with cl hyps(2) have "y = (Inl (Errorf ''list safe utxos failed: %w'' [] err), r1)" by simp
    with fr show ?thesis by (simp add: is_invalid_spend_key_def)
  next
    case (Inr utxos)
    show ?thesis
    proof (cases "length utxos = 0")
      case True
      with Inr cl hyps(2) have "y = (Inr assets, r1)" by simp
      with fr show ?thesis by simp
    next
      case False
      obtain opt' assets' where co: "collect utxos (opt, assets) = (opt', assets')" by force
      with False Inr cl hyps(2) have "ll c opt' assets' r1 = Some y" by simp
      from hyps(1)[OF this] fr show ?thesis by simp
    qed
  qed
qed

lemma list_loop_frame:
  "list_loop c opt assets r = Some (res, r') \<Longrightarrow>
   key r' = key r \<and> files r' = files r \<and> output_path r' = output_path r \<and>
   receiver r' = receiver r \<and> (\<forall>err. res = Inl err \<longrightarrow> \<not> is_invalid_spend_key err)"
  using list_loop_frame_aux[of c opt assets r "(res, r')"] by simp

lemma assets_loop_frame:
  "assets_loop c L k entries r = Some (res, r') \<Longrightarrow>
   key r' = key r \<and> files r' = files r \<and> output_path r' = output_path r \<and>
   receiver r' = receiver r \<and> (\<forall>err. res = Some err \<longrightarrow> \<not> is_invalid_spend_key err)"
proof (induction entries arbitrary: r)
  case Nil
  then show ?case by simp
next
  case (Cons entry rest)
  obtain assetId utxos where e: "entry = (assetId, utxos)" by force
  obtain res1 r1 where cl: "call (CallSafeReadAsset assetId) (SafeReadAsset c assetId) r = (res1, r1)"
    by force
  then have fr: "key r1 = key r" "files r1 = files r" "output_path r1 = output_path r"
    "receiver r1 = receiver r"
    by (auto simp: call_eq)
  show ?case
  proof (cases res1)
    case (Inl err)
    with cl e Cons.prems fr show ?thesis by (auto simp: is_invalid_spend_key_def)
  next
    case (Inr asset)
    define r1' where "r1' = logln ''migrating safe asset'' [D (sumUtxos utxos), S (SafeSymbol asset)] r1"
    have fr': "key r1' = key r" "files r1' = files r" "output_path r1' = output_path r"
      "receiver r1' = receiver r"
      using fr by (simp_all add: r1'_def logln_def emit_def)
    show ?thesis
    proof (cases "spend_loop c L k utxos 0 r1'")
      case None
      with Inr cl e Cons.prems show ?thesis by (simp add: r1'_def)
    next
      case (Some y)
      obtain res2 r2 where y: "y = (res2, r2)" by force
      note sf = spend_loop_frame[OF Some[unfolded y]]
      show ?thesis
      proof (cases res2)
        case None
        define r2' where "r2' = logln ''migrated safe asset'' [D (sumUtxos utxos), S (SafeSymbol asset)] r2"
        have "assets_loop c L k rest r2' = Some (res, r')"
          using Inr cl e Cons.prems Some y None by (simp add: r1'_def r2'_def)
        from Cons.IH[OF this] sf fr' show ?thesis by (simp add: r2'_def logln_def emit_def)
      next
        case (Some err)
        then have "res = Some err" "r' = r2"
          using Inr cl e Cons.prems \<open>spend_loop c L k utxos 0 r1' = Some y\<close> y
          by (simp_all add: r1'_def)
        with sf fr' Some show ?thesis by simp
      qed
    qed
  qed
qed


lemma migrateToSafe_spend_key:
  assumes "\<And>w. \<not> isl (KeyFromString c (KeyString c (fst (GenerateKey c w))))"
    and "migrateToSafe c r = (None, r1)"
  shows "\<not> isl (KeyFromString c (SpendKey (key r1)))"
proof (cases "KeyFromString c (SpendKey (key r))")
  case (Inr k)
  with assms(2) show ?thesis by (auto simp: migrateToSafe_def logln_def emit_def)
next
  case (Inl e)
  obtain k w1 where g: "GenerateKey c (world r) = (k, w1)" by force
  obtain res2 w2 where sm: "SafeMigrate c (KeyString c k) (Pin (key r)) w1 = (res2, w2)" by force
  have "res2 = None"
    using assms(2) Inl g sm
    by (auto simp: migrateToSafe_def call_eq logln_def emit_def Let_def split: option.splits)
  with sm have "SafeMigrate c (KeyString c k) (Pin (key r)) w1 = (None, w2)" by simp
  from migrateToSafe_rotates[OF Inl g this assms(2)]
  have "SpendKey (key r1) = KeyString c k" by simp
  moreover have "k = fst (GenerateKey c (world r))" using g by simp
  ultimately show ?thesis using assms(1) by simp
qed

lemma migrateSafeAssets_errors:
  assumes "\<not> isl (KeyFromString c (SpendKey (key r1)))"
    and "migrateSafeAssets c L r1 = Some (Some err, r2)"
  shows "\<not> is_invalid_spend_key err"
proof (cases "list_loop c \<lparr>Offset = 0, Limit = 500, Order = ''ASC'', State = ''unspent''\<rparr> [] r1")
  case None
  with assms(2) show ?thesis by (simp add: migrateSafeAssets_def)
next
  case (Some y)
  obtain res r1' where y: "y = (res, r1')" by force
  note lf = list_loop_frame[OF Some[unfolded y]]
  show ?thesis
  proof (cases res)
    case (Inl e)
    with Some y assms(2) lf show ?thesis by (simp add: migrateSafeAssets_def)
  next
    case (Inr assets)
    show ?thesis
    proof (cases "length assets = 0")
      case True
      with Inr Some y assms(2) show ?thesis by (simp add: migrateSafeAssets_def)
    next
      case False
      define r2' where "r2' = logln ''start migrating %d safe assets'' [I (int (length assets))] r1'"
      have k2: "key r2' = key r1" using lf by (simp add: r2'_def logln_def emit_def)
      with assms(1) obtain spendKey where sk: "KeyFromString c (SpendKey (key r2')) = Inr spendKey"
        by (cases "KeyFromString c (SpendKey (key r2'))") auto
      show ?thesis
      proof (cases "assets_loop c L spendKey (MapOrder c assets) r2'")
        case None
        with False Inr Some y assms(2) sk show ?thesis
          by (simp add: migrateSafeAssets_def r2'_def Let_def)
      next
        case al: (Some z)
        obtain res3 r3 where z: "z = (res3, r3)" by force
        from al z False Inr Some y assms(2) sk have "res3 = Some err"
          by (auto simp: migrateSafeAssets_def r2'_def Let_def split: option.splits)
        with assets_loop_frame[OF al[unfolded z]] show ?thesis by simp
      qed
    qed
  qed
qed

text \<open>
  Claim C10. Let every key the library generates print to a string that the library
  parses back as a key. If \<open>migrateToSafe\<close> returns success, the spend key of the record
  it leaves parses as a private key, and the drain phase started from that state never
  returns the error of its spend-key check: whatever error it returns comes from listing,
  reading an asset or settling a group.
\<close>

theorem spend_key_valid_after_activation:
  assumes "\<And>w. \<not> isl (KeyFromString c (KeyString c (fst (GenerateKey c w))))"
    and "migrateToSafe c r = (None, r1)"
  shows "\<not> isl (KeyFromString c (SpendKey (key r1))) \<and>
         (migrateSafeAssets c L r1 = Some (Some err, r2) \<longrightarrow> \<not> is_invalid_spend_key err)"
  using migrateToSafe_spend_key[OF assms] migrateSafeAssets_errors[of c r1 L err r2] by blast

theorem spend_key_valid_after_activation_witness:
  "\<not> isl (KeyFromString (demo [] demo_ledger bob)
            (KeyString (demo [] demo_ledger bob) (fst (GenerateKey (demo [] demo_ledger bob) ())))) \<and>
   fst (migrateToSafe (demo [] demo_ledger bob) (demo_runner ''key:p'' [])) = None \<and>
   KeyFromString (demo [] demo_ledger bob)
     (SpendKey (key (snd (migrateToSafe (demo [] demo_ledger bob) (demo_runner ''key:p'' [])))))
     = Inr ''key:fresh'' \<and>
   map_option (map_prod id (built_groups \<circ> trace))
     (migrateSafeAssets (demo [] demo_ledger bob) 256
        (snd (migrateToSafe (demo [] demo_ledger bob) (demo_runner ''key:p'' []))))
     = Some (None, [[demo_utxo ''btc'' 1, demo_utxo ''btc'' 3], [demo_utxo ''eth'' 2]])"
proof -
  have a: "\<And>w. \<not> isl (KeyFromString (demo [] demo_ledger bob)
            (KeyString (demo [] demo_ledger bob) (fst (GenerateKey (demo [] demo_ledger bob) w))))"
    by (simp add: demo_def demo_KeyFromString_def)
  have b: "migrateToSafe (demo [] demo_ledger bob) (demo_runner ''key:p'' [])
      = (None, snd (migrateToSafe (demo [] demo_ledger bob) (demo_runner ''key:p'' [])))"
    by (simp add: migrateToSafe_def saveKeystore_def os_OpenFile_WRONLY_def
      os_Write_def call_eq logln_def emit_def Let_def
      demo_def demo_runner_def demo_KeyFromString_def demo_JsonEncode_def)
  show ?thesis
    using spend_key_valid_after_activation [OF a b]
    by (simp add: migrateToSafe_def saveKeystore_def os_OpenFile_WRONLY_def
      os_Write_def call_eq logln_def emit_def Let_def
      migrateSafeAssets_def list_loop.simps spend_loop.simps collect_def slice_def settle_def
      demo_def demo_runner_def demo_KeyFromString_def demo_JsonEncode_def demo_ledger_def
      demo_utxo_def)
qed

subsection \<open>The order of the phases\<close>

lemma phase_marks_append: "phase_marks (xs @ ys) = phase_marks xs @ phase_marks ys"
  by (simp add: phase_marks_def)

lemma phase_marks_Cons:
  "phase_marks (e # es) = (if 0 < phase_of e then [phase_of e] else []) @ phase_marks es"
  by (simp add: phase_marks_def)

lemma phase_marks_Nil: "phase_marks [] = []"
  by (simp add: phase_marks_def)

lemma sorted_const: "set ms \<subseteq> {k} \<Longrightarrow> sorted ms" for ms :: "nat list"
  by (induction ms) auto

lemma settle_phase:
  "settle c k spends r = (res, r') \<Longrightarrow>
   \<exists>evs. trace r' = trace r @ evs \<and> set (phase_marks evs) \<subseteq> {4}"
  by (auto simp: settle_def call_eq emit_def Let_def phase_marks_def
      split: prod.splits sum.splits option.splits)

lemma saveKeystore_phase:
  "saveKeystore c r = (res, r') \<Longrightarrow> \<exists>evs. trace r' = trace r @ evs \<and> phase_marks evs = []"
  by (auto simp: saveKeystore_def os_OpenFile_WRONLY_def os_Write_def emit_def Let_def
      phase_marks_def split: option.splits sum.splits if_splits)

lemma updateTipPin_phase:
  fixes r :: "('w, 'k, 'addr) runner"
  assumes "updateTipPin c r = (res, r')"
  shows "\<exists>evs. trace r' = trace r @ evs \<and> set (phase_marks evs) = {2}"
proof (cases "KeyFromString c (Pin (key r))")
  case (Inr k)
  with assms have "trace r' = trace r @ [Log ''updated to tip pin already'' []]"
    by (auto simp: updateTipPin_def logln_def emit_def)
  then show ?thesis
    by (intro exI[of _ "[Log ''updated to tip pin already'' []]"]) (simp add: phase_marks_def)
next
  case (Inl e0)
  obtain k w1 where g: "GenerateKey c (world r) = (k, w1)" by force
  obtain res4 w2 where mp: "ModifyPin c (Pin (key r)) (KeyString c (KeyPublic c k)) w1 = (res4, w2)"
    by force
  define pre :: "'addr event list" where "pre = [Log ''start update tip pin'' [], CallGenerateKey,
    Log ''new pin:'' [S (KeyString c k)], CallModifyPin (Pin (key r)) (KeyString c (KeyPublic c k))]"
  have pm: "phase_marks pre = [2, 2, 2]" by (simp add: pre_def phase_marks_def)
  define r4 where "r4 = r\<lparr>trace := trace r @ pre, world := w2\<rparr>"
  show ?thesis
  proof (cases res4)
    case (Some err)
    with assms Inl g mp have "r' = r4"
      by (auto simp: updateTipPin_def call_eq logln_def emit_def r4_def pre_def)
    then have "trace r' = trace r @ pre" by (simp add: r4_def)
    with pm show ?thesis by (intro exI[of _ pre]) simp
  next
    case None
    obtain res5 r5 where sv: "saveKeystore c (r4\<lparr>key := (key r4)\<lparr>Pin := KeyString c k\<rparr>\<rparr>) = (res5, r5)"
      by force
    from saveKeystore_phase[OF sv] obtain evs where
      e: "trace r5 = trace r @ pre @ evs" "phase_marks evs = []"
      by (auto simp: r4_def)
    have up: "updateTipPin c r = (case (res5, r5) of (Some err, r5) \<Rightarrow> (Some err, r5)
                 | (None, r5) \<Rightarrow> (None, logln ''update tip pin done'' [] r5))"
      using Inl g mp None sv
      by (simp add: updateTipPin_def call_eq logln_def emit_def r4_def pre_def)
    show ?thesis
    proof (cases res5)
      case None
      with up assms have "r' = logln ''update tip pin done'' [] r5" by simp
      then have "trace r' = trace r @ (pre @ evs @ [Log ''update tip pin done'' []])"
        using e by (simp add: logln_def emit_def)
      moreover have "phase_marks [Log ''update tip pin done'' [] :: 'addr event] = [2]"
        by (simp add: phase_marks_def)
      then have "set (phase_marks (pre @ evs @ [Log ''update tip pin done'' []])) = {2}"
        using pm e(2) by (simp only: phase_marks_append set_append) simp
      ultimately show ?thesis by blast
    next
      case (Some err)
      with up assms have "r' = r5" by simp
      then have "trace r' = trace r @ (pre @ evs)" using e by simp
      moreover have "set (phase_marks (pre @ evs)) = {2}"
        using pm e(2) by (simp add: phase_marks_append)
      ultimately show ?thesis by blast
    qed
  qed
qed

lemma migrateToSafe_phase:
  fixes r :: "('w, 'k, 'addr) runner"
  assumes "migrateToSafe c r = (res, r')"
  shows "\<exists>evs. trace r' = trace r @ evs \<and> set (phase_marks evs) = {3}"
proof (cases "KeyFromString c (SpendKey (key r))")
  case (Inr k)
  with assms have "trace r' = trace r @ [Log ''migrated to safe already'' []]"
    by (auto simp: migrateToSafe_def logln_def emit_def)
  then show ?thesis
    by (intro exI[of _ "[Log ''migrated to safe already'' []]"]) (simp add: phase_marks_def)
next
  case (Inl e0)
  obtain k w1 where g: "GenerateKey c (world r) = (k, w1)" by force
  obtain res4 w2 where mp: "SafeMigrate c (KeyString c k) (Pin (key r)) w1 = (res4, w2)"
    by force
  define pre :: "'addr event list" where "pre = [Log ''start migrate safe'' [], CallGenerateKey,
    Log ''new spend key:'' [S (KeyString c k)], CallSafeMigrate (KeyString c k) (Pin (key r))]"
  have pm: "phase_marks pre = [3, 3, 3]" by (simp add: pre_def phase_marks_def)
  define r4 where "r4 = r\<lparr>trace := trace r @ pre, world := w2\<rparr>"
  show ?thesis
  proof (cases res4)
    case (Some err)
    with assms Inl g mp have "r' = r4"
      by (auto simp: migrateToSafe_def call_eq logln_def emit_def Let_def r4_def pre_def)
    then have "trace r' = trace r @ pre" by (simp add: r4_def)
    with pm show ?thesis by (intro exI[of _ pre]) simp
  next
    case None
    obtain res5 r5 where sv: "saveKeystore c (r4\<lparr>key := (key r4)\<lparr>SpendKey := KeyString c k\<rparr>\<rparr>) = (res5, r5)"
      by force
    from saveKeystore_phase[OF sv] obtain evs where
      e: "trace r5 = trace r @ pre @ evs" "phase_marks evs = []"
      by (auto simp: r4_def)
    have up: "migrateToSafe c r = (case (res5, r5) of (Some err, r5) \<Rightarrow> (Some err, r5)
                 | (None, r5) \<Rightarrow> (None, logln ''migrate safe done'' [] r5))"
      using Inl g mp None sv
      by (simp add: migrateToSafe_def call_eq logln_def emit_def Let_def r4_def pre_def)
    show ?thesis
    proof (cases res5)
      case None
      with up assms have "r' = logln ''migrate safe done'' [] r5" by simp
      then have "trace r' = trace r @ (pre @ evs @ [Log ''migrate safe done'' []])"
        using e by (simp add: logln_def emit_def)
      moreover have "phase_marks [Log ''migrate safe done'' [] :: 'addr event] = [3]"
        by (simp add: phase_marks_def)
      then have "set (phase_marks (pre @ evs @ [Log ''migrate safe done'' []])) = {3}"
        using pm e(2) by (simp only: phase_marks_append set_append) simp
      ultimately show ?thesis by blast
    next
      case (Some err)
      with up assms have "r' = r5" by simp
      then have "trace r' = trace r @ (pre @ evs)" using e by simp
      moreover have "set (phase_marks (pre @ evs)) = {3}"
        using pm e(2) by (simp add: phase_marks_append)
      ultimately show ?thesis by blast
    qed
  qed
qed


lemma transfer_loop_phase:
  fixes r :: "('w, 'k, 'addr) runner"
  shows "transfer_loop c assets r = (res, r') \<Longrightarrow>
   \<exists>evs. trace r' = trace r @ evs \<and> set (phase_marks evs) \<subseteq> {1}"
proof (induction assets arbitrary: r)
  case Nil
  then show ?case by (simp add: phase_marks_def)
next
  case (Cons asset rest)
  obtain trace_id w1 where rt: "RandomTraceID c (world r) = (trace_id, w1)" by force
  define t where "t = \<lparr>TransferAssetID = AssetID asset, OpponentID = receiver r,
                 TransferAmount = Balance asset, TraceID = trace_id,
                 TransferMemo = ''migrate by mixin-migrate''\<rparr>"
  obtain res3 w2 where tf: "Transfer c t (Pin (key r)) w1 = (res3, w2)" by force
  define pre :: "'addr event list" where
    "pre = [Log ''migrating legacy asset'' [D (Balance asset), S (Symbol asset)],
            CallRandomTraceID, CallTransfer t (Pin (key r))]"
  have pm: "phase_marks pre = [1, 1, 1]" by (simp add: pre_def phase_marks_def)
  define r3 where "r3 = r\<lparr>trace := trace r @ pre, world := w2\<rparr>"
  show ?case
  proof (cases res3)
    case (Inl err)
    with Cons.prems rt tf have "r' = r3"
      by (auto simp: call_eq logln_def emit_def Let_def r3_def pre_def t_def)
    then have "trace r' = trace r @ pre" by (simp add: r3_def)
    with pm show ?thesis by (intro exI[of _ pre]) simp
  next
    case (Inr snapshot)
    define lg :: "'addr event" where "lg = Log ''migrated legacy asset''
                [D (Balance asset), S (Symbol asset), S ''snapshot'', S (SnapshotID snapshot)]"
    have "transfer_loop c (asset # rest) r = transfer_loop c rest (emit lg r3)"
      using Inr rt tf
      by (simp add: call_eq logln_def emit_def Let_def r3_def pre_def t_def lg_def)
    with Cons.prems have "transfer_loop c rest (emit lg r3) = (res, r')" by simp
    from Cons.IH[OF this] obtain evs where
      ih: "trace r' = trace (emit lg r3) @ evs" "set (phase_marks evs) \<subseteq> {1}" by blast
    have pl: "phase_of lg = 1" by (simp add: lg_def)
    have "trace r' = trace r @ (pre @ lg # evs)" using ih(1) by (simp add: emit_def r3_def)
    moreover have "set (phase_marks (pre @ lg # evs)) \<subseteq> {1}"
      using ih(2) pm pl by (simp add: phase_marks_append phase_marks_Cons)
    ultimately show ?thesis by blast
  qed
qed

lemma migrateLegacyAssets_phase:
  fixes r :: "('w, 'k, 'addr) runner"
  assumes "migrateLegacyAssets c r = (res, r')"
  shows "\<exists>evs. trace r' = trace r @ evs \<and> set (phase_marks evs) = {1}"
proof -
  obtain res1 w1 where ra: "ReadAssets c (world r) = (res1, w1)" by force
  define r1 where "r1 = r\<lparr>trace := trace r @ [CallReadAssets], world := w1\<rparr>"
  have cl: "call CallReadAssets (ReadAssets c) r = (res1, r1)"
    using ra by (simp add: call_eq r1_def)
  show ?thesis
  proof (cases res1)
    case (Inl err)
    with assms cl have "r' = r1" by (auto simp: migrateLegacyAssets_def)
    then have "trace r' = trace r @ [CallReadAssets]" by (simp add: r1_def)
    then show ?thesis by (intro exI[of _ "[CallReadAssets]"]) (simp add: phase_marks_def)
  next
    case (Inr assets0)
    show ?thesis
    proof (cases "length (compact assets0) = 0")
      case True
      with assms cl Inr have "r' = logln ''no legacy assets'' [] r1"
        by (auto simp: migrateLegacyAssets_def)
      then have "trace r' = trace r @ [CallReadAssets, Log ''no legacy assets'' []]"
        by (simp add: r1_def logln_def emit_def)
      then show ?thesis
        by (intro exI[of _ "[CallReadAssets, Log ''no legacy assets'' []]"])
          (simp add: phase_marks_def)
    next
      case False
      define lg :: "'addr event" where
        "lg = Log ''start migrating %d legacy assets'' [I (int (length (compact assets0)))]"
      obtain res2 r2 where tl: "transfer_loop c (compact assets0) (emit lg r1) = (res2, r2)"
        by force
      from transfer_loop_phase[OF tl] obtain evs where
        e: "trace r2 = trace (emit lg r1) @ evs" "set (phase_marks evs) \<subseteq> {1}" by blast
      have m: "migrateLegacyAssets c r =
          (case (res2, r2) of (Some err, r2) \<Rightarrow> (Some err, r2)
           | (None, r2) \<Rightarrow> (None, logln ''migrate legacy assets done'' [] r2))"
        using cl Inr False tl by (simp add: migrateLegacyAssets_def logln_def lg_def)
      have t2: "trace r2 = trace r @ (CallReadAssets # lg # evs)"
        using e(1) by (simp add: emit_def r1_def)
      have pl: "phase_of lg = 1" by (simp add: lg_def)
      have p2: "set (phase_marks (CallReadAssets # lg # evs)) = {1}"
        using e(2) pl by (auto simp: phase_marks_Cons)
      show ?thesis
      proof (cases res2)
        case None
        with m assms have "r' = logln ''migrate legacy assets done'' [] r2" by simp
        then have "trace r' = trace r @ ((CallReadAssets # lg # evs) @ [Log ''migrate legacy assets done'' []])"
          using t2 by (simp add: logln_def emit_def)
        moreover have "phase_marks [Log ''migrate legacy assets done'' [] :: 'addr event] = [1]"
          by (simp add: phase_marks_def)
        then have "set (phase_marks ((CallReadAssets # lg # evs) @ [Log ''migrate legacy assets done'' []])) = {1}"
          using p2 by (simp only: phase_marks_append set_append) simp
        ultimately show ?thesis by blast
      next
        case (Some err)
        with m assms have "r' = r2" by simp
        with t2 p2 show ?thesis by blast
      qed
    qed
  qed
qed


lemma list_loop_phase:
  fixes r :: "('w, 'k, 'addr) runner"
  assumes "list_loop c opt assets r = Some y"
  shows "\<exists>evs. trace (snd y) = trace r @ evs \<and> set (phase_marks evs) = {4}"
proof (rule list_loop.raw_induct[where P = "\<lambda>c opt assets r y.
   \<exists>evs. trace (snd y) = trace r @ evs \<and> set (phase_marks evs) = {4}", OF _ assms], goal_cases)
  case (1 ll c opt assets r y)
  note hyps = 1
  obtain res1 r1 where cl: "call (CallSafeListUtxos opt) (SafeListUtxos c opt) r = (res1, r1)"
    by force
  then have t1: "trace r1 = trace r @ [CallSafeListUtxos opt]" by (auto simp: call_eq)
  have p1: "phase_marks [CallSafeListUtxos opt :: 'addr event] = [4]" by (simp add: phase_marks_def)
  show ?case
  proof (cases res1)
    case (Inl err)
    with cl hyps(2) have "snd y = r1" by auto
    with t1 p1 show ?thesis by (intro exI[of _ "[CallSafeListUtxos opt]"]) simp
  next
    case (Inr utxos)
    show ?thesis
    proof (cases "length utxos = 0")
      case True
      with Inr cl hyps(2) have "snd y = r1" by auto
      with t1 p1 show ?thesis by (intro exI[of _ "[CallSafeListUtxos opt]"]) simp
    next
      case False
      obtain opt' assets' where co: "collect utxos (opt, assets) = (opt', assets')" by force
      with False Inr cl hyps(2) have "ll c opt' assets' r1 = Some y" by simp
      from hyps(1)[OF this] obtain evs where
        e: "trace (snd y) = trace r1 @ evs" "set (phase_marks evs) = {4}" by blast
      have "trace (snd y) = trace r @ ([CallSafeListUtxos opt] @ evs)" using e(1) t1 by simp
      moreover have "set (phase_marks ([CallSafeListUtxos opt] @ evs)) = {4}"
        using e(2) p1 by (simp only: phase_marks_append set_append) simp
      ultimately show ?thesis by blast
    qed
  qed
qed

lemma spend_loop_phase:
  fixes r :: "('w, 'k, 'addr) runner"
  assumes "spend_loop c L k utxos idx r = Some y"
  shows "\<exists>evs. trace (snd y) = trace r @ evs \<and> set (phase_marks evs) \<subseteq> {4}"
proof (rule spend_loop.raw_induct[where P = "\<lambda>c L k utxos idx r y.
   \<exists>evs. trace (snd y) = trace r @ evs \<and> set (phase_marks evs) \<subseteq> {4}", OF _ assms], goal_cases)
  case (1 sl c L k utxos idx r y)
  note hyps = 1
  have nil: "\<exists>evs. trace r = trace r @ evs \<and> set (phase_marks evs) \<subseteq> {4}"
    by (intro exI[of _ "[]"]) (simp add: phase_marks_def)
  show ?case
  proof (cases "idx < int (length utxos)")
    case False
    with hyps(2) have "snd y = r" by auto
    with nil show ?thesis by simp
  next
    case True
    show ?thesis
    proof (cases "slice utxos idx (min (int (length utxos)) (idx + L))")
      case None
      with True hyps(2) have "snd y = r" by auto
      with nil show ?thesis by simp
    next
      case (Some spends)
      obtain res1 r1 where st: "settle c k spends r = (res1, r1)" by force
      from settle_phase[OF st] obtain evs1 where
        e1: "trace r1 = trace r @ evs1" "set (phase_marks evs1) \<subseteq> {4}" by blast
      show ?thesis
      proof (cases res1)
        case None
        with True Some st hyps(2) have "sl c L k utxos (idx + L) r1 = Some y" by simp
        from hyps(1)[OF this] obtain evs where
          e: "trace (snd y) = trace r1 @ evs" "set (phase_marks evs) \<subseteq> {4}" by blast
        have "trace (snd y) = trace r @ (evs1 @ evs)" using e(1) e1(1) by simp
        moreover have "set (phase_marks (evs1 @ evs)) \<subseteq> {4}"
          using e(2) e1(2) by (simp add: phase_marks_append)
        ultimately show ?thesis by blast
      next
        case (Some err)
        with True \<open>slice utxos idx (min (int (length utxos)) (idx + L)) = Some spends\<close> st hyps(2)
        have "y = (Some err, r1)" by simp
        then have "snd y = r1" by simp
        with e1 show ?thesis by blast
      qed
    qed
  qed
qed

lemma assets_loop_phase:
  fixes r :: "('w, 'k, 'addr) runner"
  shows "assets_loop c L k entries r = Some (res, r') \<Longrightarrow>
   \<exists>evs. trace r' = trace r @ evs \<and> set (phase_marks evs) \<subseteq> {4}"
proof (induction entries arbitrary: r)
  case Nil
  then show ?case by (simp add: phase_marks_def)
next
  case (Cons entry rest)
  obtain assetId utxos where en: "entry = (assetId, utxos)" by force
  obtain res1 r1 where cl: "call (CallSafeReadAsset assetId) (SafeReadAsset c assetId) r = (res1, r1)"
    by force
  then have t1: "trace r1 = trace r @ [CallSafeReadAsset assetId]" by (auto simp: call_eq)
  have p1: "phase_marks [CallSafeReadAsset assetId :: 'addr event] = [4]"
    by (simp add: phase_marks_def)
  show ?case
  proof (cases res1)
    case (Inl err)
    with cl en Cons.prems have "r' = r1" by auto
    with t1 p1 show ?thesis by (intro exI[of _ "[CallSafeReadAsset assetId]"]) simp
  next
    case (Inr asset)
    define lg1 :: "'addr event" where
      "lg1 = Log ''migrating safe asset'' [D (sumUtxos utxos), S (SafeSymbol asset)]"
    define lg2 :: "'addr event" where
      "lg2 = Log ''migrated safe asset'' [D (sumUtxos utxos), S (SafeSymbol asset)]"
    have pl: "phase_marks [lg1] = [4]" "phase_marks [lg2] = [4]"
      by (simp_all add: lg1_def lg2_def phase_marks_def)
    show ?thesis
    proof (cases "spend_loop c L k utxos 0 (emit lg1 r1)")
      case None
      with Inr cl en Cons.prems show ?thesis by (simp add: logln_def lg1_def)
    next
      case (Some y)
      from spend_loop_phase[OF Some] obtain evs2 where
        e2: "trace (snd y) = trace (emit lg1 r1) @ evs2" "set (phase_marks evs2) \<subseteq> {4}" by blast
      have t2: "trace (snd y) = trace r @ ([CallSafeReadAsset assetId] @ [lg1] @ evs2)"
        using e2(1) t1 by (simp add: emit_def)
      have p2: "set (phase_marks ([CallSafeReadAsset assetId] @ [lg1] @ evs2)) \<subseteq> {4}"
        using e2(2) p1 pl by (simp only: phase_marks_append set_append) simp
      obtain res2 r2 where y: "y = (res2, r2)" by force
      show ?thesis
      proof (cases res2)
        case None
        have "assets_loop c L k rest (emit lg2 r2) = Some (res, r')"
          using Inr cl en Cons.prems Some y None by (simp add: logln_def lg1_def lg2_def)
        from Cons.IH[OF this] obtain evs3 where
          e3: "trace r' = trace (emit lg2 r2) @ evs3" "set (phase_marks evs3) \<subseteq> {4}" by blast
        have "trace r' = trace r @ (([CallSafeReadAsset assetId] @ [lg1] @ evs2) @ [lg2] @ evs3)"
          using e3(1) t2 y by (simp add: emit_def)
        moreover have "set (phase_marks (([CallSafeReadAsset assetId] @ [lg1] @ evs2) @ [lg2] @ evs3)) \<subseteq> {4}"
          using e3(2) p2 pl by (simp only: phase_marks_append set_append) simp
        ultimately show ?thesis by blast
      next
        case (Some err)
        then have "r' = r2"
          using Inr cl en Cons.prems \<open>spend_loop c L k utxos 0 (emit lg1 r1) = Some y\<close> y
          by (simp add: logln_def lg1_def)
        with t2 p2 y show ?thesis by auto
      qed
    qed
  qed
qed

lemma migrateSafeAssets_phase:
  fixes r :: "('w, 'k, 'addr) runner"
  assumes "migrateSafeAssets c L r = Some (res, r')"
  shows "\<exists>evs. trace r' = trace r @ evs \<and> set (phase_marks evs) = {4}"
proof (cases "list_loop c \<lparr>Offset = 0, Limit = 500, Order = ''ASC'', State = ''unspent''\<rparr> [] r")
  case None
  with assms show ?thesis by (simp add: migrateSafeAssets_def)
next
  case (Some y)
  obtain res1 r1 where y: "y = (res1, r1)" by force
  from list_loop_phase[OF Some] y obtain evs1 where
    e1: "trace r1 = trace r @ evs1" "set (phase_marks evs1) = {4}" by auto
  show ?thesis
  proof (cases res1)
    case (Inl err)
    with Some y assms have "r' = r1" by (simp add: migrateSafeAssets_def)
    with e1 show ?thesis by blast
  next
    case (Inr assets)
    show ?thesis
    proof (cases "length assets = 0")
      case True
      with Inr Some y assms have "r' = logln ''no safe assets'' [] r1"
        by (simp add: migrateSafeAssets_def)
      then have "trace r' = trace r @ (evs1 @ [Log ''no safe assets'' []])"
        using e1(1) by (simp add: logln_def emit_def)
      moreover have "phase_marks [Log ''no safe assets'' [] :: 'addr event] = [4]"
        by (simp add: phase_marks_def)
      then have "set (phase_marks (evs1 @ [Log ''no safe assets'' []])) = {4}"
        using e1(2) by (simp only: phase_marks_append set_append) simp
      ultimately show ?thesis by blast
    next
      case False
      define lg :: "'addr event" where
        "lg = Log ''start migrating %d safe assets'' [I (int (length assets))]"
      have pl: "phase_marks [lg] = [4]" by (simp add: lg_def phase_marks_def)
      have t2: "trace (emit lg r1) = trace r @ (evs1 @ [lg])" using e1(1) by (simp add: emit_def)
      have p2: "set (phase_marks (evs1 @ [lg])) = {4}"
        using e1(2) pl by (simp only: phase_marks_append set_append) simp
      have k2: "key (emit lg r1) = key r1" by (simp add: emit_def)
      show ?thesis
      proof (cases "KeyFromString c (SpendKey (key r1))")
        case (Inl err)
        with False Inr Some y assms k2 have "r' = emit lg r1"
          by (simp add: migrateSafeAssets_def Let_def logln_def lg_def)
        with t2 p2 show ?thesis by blast
      next
        case sk: (Inr spendKey)
        show ?thesis
        proof (cases "assets_loop c L spendKey (MapOrder c assets) (emit lg r1)")
          case None
          with False Inr Some y assms k2 sk show ?thesis
            by (simp add: migrateSafeAssets_def Let_def logln_def lg_def)
        next
          case al: (Some z)
          obtain res3 r3 where z: "z = (res3, r3)" by force
          from assets_loop_phase[OF al[unfolded z]] obtain evs3 where
            e3: "trace r3 = trace (emit lg r1) @ evs3" "set (phase_marks evs3) \<subseteq> {4}" by blast
          have t3: "trace r3 = trace r @ ((evs1 @ [lg]) @ evs3)" using e3(1) t2 by simp
          have p3: "set (phase_marks ((evs1 @ [lg]) @ evs3)) = {4}"
            using e3(2) p2 by (simp only: phase_marks_append[of "evs1 @ [lg]" evs3] set_append) auto
          show ?thesis
          proof (cases res3)
            case None
            with al z False Inr Some y assms k2 sk
            have "r' = logln ''migrate safe assets done'' [] r3"
              by (simp add: migrateSafeAssets_def Let_def logln_def lg_def)
            then have "trace r' = trace r @ (((evs1 @ [lg]) @ evs3) @ [Log ''migrate safe assets done'' []])"
              using t3 by (simp add: logln_def emit_def)
            moreover have "phase_marks [Log ''migrate safe assets done'' [] :: 'addr event] = [4]"
              by (simp add: phase_marks_def)
            then have "set (phase_marks (((evs1 @ [lg]) @ evs3) @ [Log ''migrate safe assets done'' []])) = {4}"
              using p3
              by (simp only: phase_marks_append[of "(evs1 @ [lg]) @ evs3"] set_append) simp
            ultimately show ?thesis by blast
          next
            case (Some err)
            with al z False Inr \<open>list_loop c \<lparr>Offset = 0, Limit = 500, Order = ''ASC'', State = ''unspent''\<rparr> [] r = Some y\<close>
              y assms k2 sk
            have "r' = r3" by (simp add: migrateSafeAssets_def Let_def logln_def lg_def)
            with t3 p3 show ?thesis by blast
          qed
        qed
      qed
    qed
  qed
qed

lemma upto_sets:
  "{1..1::nat} = {1}" "{1..2::nat} = {1, 2}" "{1..3::nat} = {1, 2, 3}" "{1..4::nat} = {1, 2, 3, 4}"
  by auto

lemma reached_simps:
  "reached (Fatal ''migrate legacy assets failed:'' e) = 1"
  "reached (Fatal ''update tip pin failed:'' e) = 2"
  "reached (Fatal ''migrate safe failed:'' e) = 3"
  "reached (Fatal ''migrate safe assets failed:'' e) = 4"
  "reached Completed = 4"
  by (simp_all add: reached_def)

lemma phases_marks:
  fixes r :: "('w, 'k, 'addr) runner"
  assumes "phases c L r = Some (out, rf)"
  shows "\<exists>evs. trace rf = trace r @ evs \<and> sorted (phase_marks evs) \<and>
           set (phase_marks evs) = {1..reached out}"
proof -
  obtain res1 r1 where p1: "migrateLegacyAssets c r = (res1, r1)" by force
  from migrateLegacyAssets_phase[OF p1] obtain evs1 where
    e1: "trace r1 = trace r @ evs1" "set (phase_marks evs1) = {1}" by blast
  have s1: "sorted (phase_marks evs1)" using e1(2) by (intro sorted_const[of _ 1]) simp
  show ?thesis
  proof (cases res1)
    case (Some err)
    with p1 assms have o: "out = Fatal ''migrate legacy assets failed:'' (Some err)" "rf = r1"
      by (simp_all add: phases_def)
    have f: "set (phase_marks evs1) = {1..reached out}"
      unfolding o(1) reached_simps upto_sets by (rule e1(2))
    show ?thesis unfolding o(2) using e1(1) s1 f by blast
  next
    case n1: None
    obtain res2 r2 where p2: "updateTipPin c r1 = (res2, r2)" by force
    from updateTipPin_phase[OF p2] obtain evs2 where
      e2: "trace r2 = trace r1 @ evs2" "set (phase_marks evs2) = {2}" by blast
    have t2: "trace r2 = trace r @ (evs1 @ evs2)" using e1(1) e2(1) by simp
    have m2: "set (phase_marks (evs1 @ evs2)) = {1, 2}"
      unfolding phase_marks_append set_append e1(2) e2(2) by auto
    have c2: "sorted (phase_marks evs2)" using e2(2) by (intro sorted_const[of _ 2]) simp
    have s2: "sorted (phase_marks (evs1 @ evs2))"
      unfolding phase_marks_append sorted_append e1(2) e2(2) using s1 c2 by simp
    show ?thesis
    proof (cases res2)
      case (Some err)
      with p1 n1 p2 assms have o: "out = Fatal ''update tip pin failed:'' (Some err)" "rf = r2"
        by (simp_all add: phases_def)
      have f: "set (phase_marks (evs1 @ evs2)) = {1..reached out}"
        unfolding o(1) reached_simps upto_sets by (rule m2)
      show ?thesis unfolding o(2) using t2 s2 f by blast
    next
      case n2: None
      obtain res3 r3 where p3: "migrateToSafe c r2 = (res3, r3)" by force
      from migrateToSafe_phase[OF p3] obtain evs3 where
        e3: "trace r3 = trace r2 @ evs3" "set (phase_marks evs3) = {3}" by blast
      have t3: "trace r3 = trace r @ ((evs1 @ evs2) @ evs3)" using t2 e3(1) by simp
      have m3: "set (phase_marks ((evs1 @ evs2) @ evs3)) = {1, 2, 3}"
        unfolding phase_marks_append[of "evs1 @ evs2" evs3] set_append m2 e3(2) by auto
      have c3: "sorted (phase_marks evs3)" using e3(2) by (intro sorted_const[of _ 3]) simp
      have s3: "sorted (phase_marks ((evs1 @ evs2) @ evs3))"
        unfolding phase_marks_append[of "evs1 @ evs2" evs3] sorted_append m2 e3(2)
        using s2 c3 by simp
      show ?thesis
      proof (cases res3)
        case (Some err)
        with p1 n1 p2 n2 p3 assms have o: "out = Fatal ''migrate safe failed:'' (Some err)" "rf = r3"
          by (simp_all add: phases_def)
        have f: "set (phase_marks ((evs1 @ evs2) @ evs3)) = {1..reached out}"
          unfolding o(1) reached_simps upto_sets by (rule m3)
        show ?thesis unfolding o(2) using t3 s3 f by blast
      next
        case n3: None
        from p1 n1 p2 n2 p3 n3 assms obtain res4 where
          p4: "migrateSafeAssets c L r3 = Some (res4, rf)"
          and o4: "out = (case res4 of
                            Some err \<Rightarrow> (case err of Panic msg \<Rightarrow> Panicked msg
                                         | _ \<Rightarrow> Fatal ''migrate safe assets failed:'' (Some err))
                          | None \<Rightarrow> Completed)"
          by (auto simp: phases_def split: option.splits)
        from migrateSafeAssets_phase[OF p4] obtain evs4 where
          e4: "trace rf = trace r3 @ evs4" "set (phase_marks evs4) = {4}" by blast
        have t4: "trace rf = trace r @ (((evs1 @ evs2) @ evs3) @ evs4)" using t3 e4(1) by simp
        have m4: "set (phase_marks (((evs1 @ evs2) @ evs3) @ evs4)) = {1, 2, 3, 4}"
          unfolding phase_marks_append[of "(evs1 @ evs2) @ evs3" evs4] set_append m3 e4(2) by auto
        have c4: "sorted (phase_marks evs4)" using e4(2) by (intro sorted_const[of _ 4]) simp
        have s4: "sorted (phase_marks (((evs1 @ evs2) @ evs3) @ evs4))"
          unfolding phase_marks_append[of "(evs1 @ evs2) @ evs3" evs4] sorted_append m3 e4(2)
          using s3 c4 by simp
        have r4: "reached out = 4"
          using o4 by (simp add: reached_def split: option.splits error.splits)
        have f: "set (phase_marks (((evs1 @ evs2) @ evs3) @ evs4)) = {1..reached out}"
          unfolding r4 upto_sets by (rule m4)
        show ?thesis using t4 s4 f by blast
      qed
    qed
  qed
qed

text \<open>
  Claim C8. The run of the phases is decided by the results of the four phase functions,
  each started in the state its predecessor left, in the order legacy drain, PIN rotation,
  safe activation, safe drain. When a phase returns an error the run ends there: the
  outcome is the fatal message of that phase with the phase's error, and the final state
  is the state that phase left, so no later phase has run, nothing done before is undone
  and the phase is not tried again. The run completes only when all four phases returned
  success, each from its predecessor's state. In the trace of any run that ends, the events
  of the phases come in the order of the phases, every phase up to the one the run ended in
  has left an event, and no later phase has.
\<close>

theorem phases_in_order:
  "(migrateLegacyAssets c r = (Some e, r1) \<longrightarrow>
      phases c L r = Some (Fatal ''migrate legacy assets failed:'' (Some e), r1)) \<and>
   (migrateLegacyAssets c r = (None, r1) \<and> updateTipPin c r1 = (Some e, r2) \<longrightarrow>
      phases c L r = Some (Fatal ''update tip pin failed:'' (Some e), r2)) \<and>
   (migrateLegacyAssets c r = (None, r1) \<and> updateTipPin c r1 = (None, r2) \<and>
    migrateToSafe c r2 = (Some e, r3) \<longrightarrow>
      phases c L r = Some (Fatal ''migrate safe failed:'' (Some e), r3)) \<and>
   (migrateLegacyAssets c r = (None, r1) \<and> updateTipPin c r1 = (None, r2) \<and>
    migrateToSafe c r2 = (None, r3) \<and> migrateSafeAssets c L r3 = Some (Some e, r4) \<longrightarrow>
      phases c L r = Some (case e of Panic msg \<Rightarrow> Panicked msg
                           | _ \<Rightarrow> Fatal ''migrate safe assets failed:'' (Some e), r4)) \<and>
   (migrateLegacyAssets c r = (None, r1) \<and> updateTipPin c r1 = (None, r2) \<and>
    migrateToSafe c r2 = (None, r3) \<and> migrateSafeAssets c L r3 = Some (None, r4) \<longrightarrow>
      phases c L r = Some (Completed, r4)) \<and>
   (phases c L r = Some (Completed, rf) \<longrightarrow>
      (\<exists>r1 r2 r3. migrateLegacyAssets c r = (None, r1) \<and> updateTipPin c r1 = (None, r2) \<and>
         migrateToSafe c r2 = (None, r3) \<and> migrateSafeAssets c L r3 = Some (None, rf))) \<and>
   (phases c L r = Some (out, rf) \<longrightarrow>
      (\<exists>evs. trace rf = trace r @ evs \<and> sorted (phase_marks evs) \<and>
         set (phase_marks evs) = {1..reached out}))"
  using phases_marks[of c L r out rf]
  by (auto simp: phases_def split: prod.splits option.splits error.splits)

theorem phases_in_order_witness:
  "map_option (map_prod id (remdups_adj \<circ> phase_marks \<circ> trace))
     (phases (demo demo_legacy demo_ledger bob) 256 (demo_runner ''1234'' []))
   = Some (Completed, [1, 2, 3, 4]) \<and>
   map_option (map_prod id (remdups_adj \<circ> phase_marks \<circ> trace))
     (phases (demo demo_legacy demo_ledger bob) 256 ((demo_runner ''1234'' [])\<lparr>files := Map.empty\<rparr>))
   = Some (Fatal ''update tip pin failed:''
             (Some (Errorf ''open keystore failed: %w'' [] (External ''no such file or directory''))),
           [1, 2]) \<and>
   map_option (map_prod id (ops \<circ> trace))
     (phases (demo demo_legacy demo_ledger bob) 256 (demo_runner ''1234'' []))
   = Some (Completed,
       [''ReadAssets'', ''RandomTraceID'', ''Transfer'',
        ''GenerateKey'', ''ModifyPin'', ''OpenFile'', ''Write'',
        ''GenerateKey'', ''SafeMigrate'', ''OpenFile'', ''Write'',
        ''SafeListUtxos'', ''SafeListUtxos'',
        ''SafeReadAsset'', ''NewSafeTransactionBuilder'', ''MakeTransaction'',
        ''SafeCreateTransactionRequest'', ''SafeSignTransaction'', ''SafeSubmitTransactionRequest'',
        ''SafeReadAsset'', ''NewSafeTransactionBuilder'', ''MakeTransaction'',
        ''SafeCreateTransactionRequest'', ''SafeSignTransaction'', ''SafeSubmitTransactionRequest'']) \<and>
   map_option (map_prod id (ops \<circ> trace))
     (phases ((demo demo_legacy demo_ledger bob)\<lparr>Transfer := \<lambda>t pin w. (Inl (External ''rejected''), w)\<rparr>)
        256 (demo_runner ''1234'' []))
   = Some (Fatal ''migrate legacy assets failed:''
             (Some (Errorf ''transfer %s %s failed: %w'' [D (25 / 2), S ''B''] (External ''rejected''))),
       [''ReadAssets'', ''RandomTraceID'', ''Transfer'']) \<and>
   map_option (map_prod id (ops \<circ> trace))
     (phases (demo demo_legacy demo_ledger bob) 256 ((demo_runner ''1234'' [])\<lparr>files := Map.empty\<rparr>))
   = Some (Fatal ''update tip pin failed:''
             (Some (Errorf ''open keystore failed: %w'' [] (External ''no such file or directory''))),
       [''ReadAssets'', ''RandomTraceID'', ''Transfer'', ''GenerateKey'', ''ModifyPin'', ''OpenFile'']) \<and>
   map_option (map_prod id (ops \<circ> trace))
     (phases ((demo demo_legacy demo_ledger bob)\<lparr>SafeMigrate := \<lambda>spend pin w. (Some (External ''rejected''), w)\<rparr>)
        256 (demo_runner ''1234'' []))
   = Some (Fatal ''migrate safe failed:''
             (Some (Errorf ''migrate safe failed: %w'' [] (External ''rejected''))),
       [''ReadAssets'', ''RandomTraceID'', ''Transfer'', ''GenerateKey'', ''ModifyPin'', ''OpenFile'',
        ''Write'', ''GenerateKey'', ''SafeMigrate'']) \<and>
   map_option (map_prod id (ops \<circ> trace))
     (phases ((demo demo_legacy demo_ledger bob)\<lparr>SafeListUtxos := \<lambda>opt w. (Inl (External ''timeout''), w)\<rparr>)
        256 (demo_runner ''1234'' []))
   = Some (Fatal ''migrate safe assets failed:''
             (Some (Errorf ''list safe utxos failed: %w'' [] (External ''timeout''))),
       [''ReadAssets'', ''RandomTraceID'', ''Transfer'', ''GenerateKey'', ''ModifyPin'', ''OpenFile'',
        ''Write'', ''GenerateKey'', ''SafeMigrate'', ''OpenFile'', ''Write'', ''SafeListUtxos''])"
proof -
  note run =
      phases_def migrateLegacyAssets_def compact_filter
      updateTipPin_def migrateToSafe_def saveKeystore_def os_OpenFile_WRONLY_def
      os_Write_def call_eq logln_def emit_def Let_def ops_def
      migrateSafeAssets_def list_loop.simps spend_loop.simps collect_def slice_def settle_def
      demo_def demo_runner_def demo_KeyFromString_def demo_JsonEncode_def demo_ledger_def
      demo_legacy_def demo_utxo_def
  have w0: "map_option (map_prod id (remdups_adj \<circ> phase_marks \<circ> trace))
     (phases (demo demo_legacy demo_ledger bob) 256 (demo_runner ''1234'' []))
   = Some (Completed, [1, 2, 3, 4]) \<and>
   map_option (map_prod id (remdups_adj \<circ> phase_marks \<circ> trace))
     (phases (demo demo_legacy demo_ledger bob) 256 ((demo_runner ''1234'' [])\<lparr>files := Map.empty\<rparr>))
   = Some (Fatal ''update tip pin failed:''
             (Some (Errorf ''open keystore failed: %w'' [] (External ''no such file or directory''))),
           [1, 2])"
    by (simp add: run phase_marks_def)
  have w1: "map_option (map_prod id (ops \<circ> trace))
       (phases (demo demo_legacy demo_ledger bob) 256 (demo_runner ''1234'' []))
     = Some (Completed,
         [''ReadAssets'', ''RandomTraceID'', ''Transfer'',
          ''GenerateKey'', ''ModifyPin'', ''OpenFile'', ''Write'',
          ''GenerateKey'', ''SafeMigrate'', ''OpenFile'', ''Write'',
          ''SafeListUtxos'', ''SafeListUtxos'',
          ''SafeReadAsset'', ''NewSafeTransactionBuilder'', ''MakeTransaction'',
          ''SafeCreateTransactionRequest'', ''SafeSignTransaction'', ''SafeSubmitTransactionRequest'',
          ''SafeReadAsset'', ''NewSafeTransactionBuilder'', ''MakeTransaction'',
          ''SafeCreateTransactionRequest'', ''SafeSignTransaction'', ''SafeSubmitTransactionRequest''])"
    by (simp add: run)
  have w2: "map_option (map_prod id (ops \<circ> trace))
       (phases ((demo demo_legacy demo_ledger bob)\<lparr>Transfer := \<lambda>t pin w. (Inl (External ''rejected''), w)\<rparr>)
          256 (demo_runner ''1234'' []))
     = Some (Fatal ''migrate legacy assets failed:''
               (Some (Errorf ''transfer %s %s failed: %w'' [D (25 / 2), S ''B''] (External ''rejected''))),
         [''ReadAssets'', ''RandomTraceID'', ''Transfer''])"
    by (simp add: run)
  have w3: "map_option (map_prod id (ops \<circ> trace))
       (phases (demo demo_legacy demo_ledger bob) 256 ((demo_runner ''1234'' [])\<lparr>files := Map.empty\<rparr>))
     = Some (Fatal ''update tip pin failed:''
               (Some (Errorf ''open keystore failed: %w'' [] (External ''no such file or directory''))),
         [''ReadAssets'', ''RandomTraceID'', ''Transfer'', ''GenerateKey'', ''ModifyPin'', ''OpenFile''])"
    by (simp add: run)
  have w4: "map_option (map_prod id (ops \<circ> trace))
       (phases ((demo demo_legacy demo_ledger bob)\<lparr>SafeMigrate := \<lambda>spend pin w. (Some (External ''rejected''), w)\<rparr>)
          256 (demo_runner ''1234'' []))
     = Some (Fatal ''migrate safe failed:''
               (Some (Errorf ''migrate safe failed: %w'' [] (External ''rejected''))),
         [''ReadAssets'', ''RandomTraceID'', ''Transfer'', ''GenerateKey'', ''ModifyPin'', ''OpenFile'',
          ''Write'', ''GenerateKey'', ''SafeMigrate''])"
    by (simp add: run)
  have w5: "map_option (map_prod id (ops \<circ> trace))
       (phases ((demo demo_legacy demo_ledger bob)\<lparr>SafeListUtxos := \<lambda>opt w. (Inl (External ''timeout''), w)\<rparr>)
          256 (demo_runner ''1234'' []))
     = Some (Fatal ''migrate safe assets failed:''
               (Some (Errorf ''list safe utxos failed: %w'' [] (External ''timeout''))),
         [''ReadAssets'', ''RandomTraceID'', ''Transfer'', ''GenerateKey'', ''ModifyPin'', ''OpenFile'',
          ''Write'', ''GenerateKey'', ''SafeMigrate'', ''OpenFile'', ''Write'', ''SafeListUtxos''])"
    by (simp add: run)
  show ?thesis
    using phases_in_order [where c = "demo demo_legacy demo_ledger bob"
        and r = "demo_runner ''1234'' []" and L = 256] w0 w1 w2 w3 w4 w5
    by simp
qed

subsection \<open>Refusing the receiver\<close>

lemma receiver_refused:
  assumes "args \<noteq> []" and "0 < L" and "L \<le> 256"
    and "loadKeystore c path s = (Inr k, s1)"
    and "NewFromKeystore c (Embedded k) = Inr clientID"
    and "fetchUserInfo c (hd args) s1 = (Inr user, s2)"
    and "ToInt64 c (IdentityNumber user) = 0 \<or> UserID user = clientID"
  shows "main c args path L s =
           Some (Fatal (if ToInt64 c (IdentityNumber user) = 0
                        then ''receiver is not a mixin messenger user''
                        else ''receiver is self'') None, s2) \<and>
         files s2 = files s \<and>
         trace s2 = trace s @ [OsOpen path, CallHttpGet (''https://echo.yiplee.com/users/'' @ hd args)]"
proof -
  have m: "main c args path L s =
           Some (Fatal (if ToInt64 c (IdentityNumber user) = 0
                        then ''receiver is not a mixin messenger user''
                        else ''receiver is self'') None, s2)"
    using assms by (auto simp: main_def)
  have 1: "files s1 = files s" "trace s1 = trace s @ [OsOpen path]"
    using assms(4)
    by (auto simp: loadKeystore_def os_Open_def emit_def Let_def
        split: option.splits if_splits sum.splits)
  have 2: "files s2 = files s1"
    "trace s2 = trace s1 @ [CallHttpGet (''https://echo.yiplee.com/users/'' @ hd args)]"
    using assms(6) by (auto simp: fetchUserInfo_def call_eq Let_def)
  from m 1 2 show ?thesis by simp
qed



lemma fatal_receiver_cause:
  assumes "main c args path L s = Some (Fatal msg x, sf)"
    and "msg = ''receiver is not a mixin messenger user'' \<or> msg = ''receiver is self''"
  shows "\<exists>k s1 clientID user.
           loadKeystore c path s = (Inr k, s1) \<and> NewFromKeystore c (Embedded k) = Inr clientID \<and>
           fetchUserInfo c (hd args) s1 = (Inr user, sf) \<and>
           (if msg = ''receiver is self''
            then ToInt64 c (IdentityNumber user) \<noteq> 0 \<and> UserID user = clientID
            else ToInt64 c (IdentityNumber user) = 0)"
  using assms
  by (auto simp: main_def phases_def Let_def
      split: prod.splits option.splits sum.splits if_splits bool.splits error.splits)

text \<open>
  Claim C9. Let the command line be well-formed, the keystore load, the client be made
  and the lookup of the receiver succeed. If the receiver's identity number converts to 0,
  or the receiver's wallet identity is the client's own, then \<open>main\<close> ends with a fatal
  message, a different one for each cause. Up to then it has opened the keystore for
  reading and made the lookup and nothing else: no file has changed, and the trace holds
  no transfer, rotation, activation, submission or write. Conversely the two messages
  arise from these causes only.
\<close>

theorem receiver_validated_before_mutation:
  "(args \<noteq> [] \<and> 0 < L \<and> L \<le> 256 \<and> loadKeystore c path s = (Inr k, s1) \<and>
    NewFromKeystore c (Embedded k) = Inr clientID \<and>
    fetchUserInfo c (hd args) s1 = (Inr user, s2) \<and>
    (ToInt64 c (IdentityNumber user) = 0 \<or> UserID user = clientID) \<longrightarrow>
      main c args path L s =
        Some (Fatal (if ToInt64 c (IdentityNumber user) = 0
                     then ''receiver is not a mixin messenger user''
                     else ''receiver is self'') None, s2) \<and>
      files s2 = files s \<and>
      trace s2 = trace s @ [OsOpen path, CallHttpGet (''https://echo.yiplee.com/users/'' @ hd args)]) \<and>
   (main c args path L s = Some (Fatal msg x, sf) \<and>
    (msg = ''receiver is not a mixin messenger user'' \<or> msg = ''receiver is self'') \<longrightarrow>
      (\<exists>k s1 clientID user.
         loadKeystore c path s = (Inr k, s1) \<and> NewFromKeystore c (Embedded k) = Inr clientID \<and>
         fetchUserInfo c (hd args) s1 = (Inr user, sf) \<and>
         (if msg = ''receiver is self''
          then ToInt64 c (IdentityNumber user) \<noteq> 0 \<and> UserID user = clientID
          else ToInt64 c (IdentityNumber user) = 0)))"
proof (rule conjI; rule impI)
  assume a: "args \<noteq> [] \<and> 0 < L \<and> L \<le> 256 \<and> loadKeystore c path s = (Inr k, s1) \<and>
    NewFromKeystore c (Embedded k) = Inr clientID \<and>
    fetchUserInfo c (hd args) s1 = (Inr user, s2) \<and>
    (ToInt64 c (IdentityNumber user) = 0 \<or> UserID user = clientID)"
  then have h: "args \<noteq> []" "0 < L" "L \<le> 256" "loadKeystore c path s = (Inr k, s1)"
    "NewFromKeystore c (Embedded k) = Inr clientID"
    "fetchUserInfo c (hd args) s1 = (Inr user, s2)"
    "ToInt64 c (IdentityNumber user) = 0 \<or> UserID user = clientID"
    by simp_all
  show "main c args path L s =
        Some (Fatal (if ToInt64 c (IdentityNumber user) = 0
                     then ''receiver is not a mixin messenger user''
                     else ''receiver is self'') None, s2) \<and>
      files s2 = files s \<and>
      trace s2 = trace s @ [OsOpen path, CallHttpGet (''https://echo.yiplee.com/users/'' @ hd args)]"
    by (rule receiver_refused[OF h])
next
  assume a: "main c args path L s = Some (Fatal msg x, sf) \<and>
    (msg = ''receiver is not a mixin messenger user'' \<or> msg = ''receiver is self'')"
  then have h: "main c args path L s = Some (Fatal msg x, sf)"
    "msg = ''receiver is not a mixin messenger user'' \<or> msg = ''receiver is self''"
    by simp_all
  show "\<exists>k s1 clientID user.
         loadKeystore c path s = (Inr k, s1) \<and> NewFromKeystore c (Embedded k) = Inr clientID \<and>
         fetchUserInfo c (hd args) s1 = (Inr user, sf) \<and>
         (if msg = ''receiver is self''
          then ToInt64 c (IdentityNumber user) \<noteq> 0 \<and> UserID user = clientID
          else ToInt64 c (IdentityNumber user) = 0)"
    by (rule fatal_receiver_cause[OF h])
qed

theorem receiver_validated_before_mutation_witness:
  "main (demo demo_legacy demo_ledger carol) [''carol''] ''keystore.json'' 256 demo_sys
     = Some (Fatal ''receiver is not a mixin messenger user'' None,
             demo_sys\<lparr>trace := [OsOpen ''keystore.json'',
                                  CallHttpGet ''https://echo.yiplee.com/users/carol'']\<rparr>) \<and>
   main (demo demo_legacy demo_ledger alice) [''alice''] ''keystore.json'' 256 demo_sys
     = Some (Fatal ''receiver is self'' None,
             demo_sys\<lparr>trace := [OsOpen ''keystore.json'',
                                  CallHttpGet ''https://echo.yiplee.com/users/alice'']\<rparr>) \<and>
   ToInt64 (demo demo_legacy demo_ledger carol) (IdentityNumber carol) = 0 \<and>
   NewFromKeystore (demo demo_legacy demo_ledger alice) () = Inr (UserID alice)"
proof -
  have a: "main (demo demo_legacy demo_ledger carol) [''carol''] ''keystore.json'' 256 demo_sys
     = Some (Fatal ''receiver is not a mixin messenger user'' None,
             demo_sys\<lparr>trace := [OsOpen ''keystore.json'',
                                  CallHttpGet ''https://echo.yiplee.com/users/carol'']\<rparr>)"
    by (simp add: main_def loadKeystore_def os_Open_def fetchUserInfo_def call_eq emit_def Let_def
      demo_def demo_sys_def demo_JsonDecode_def carol_def)
  have b: "main (demo demo_legacy demo_ledger alice) [''alice''] ''keystore.json'' 256 demo_sys
     = Some (Fatal ''receiver is self'' None,
             demo_sys\<lparr>trace := [OsOpen ''keystore.json'',
                                  CallHttpGet ''https://echo.yiplee.com/users/alice'']\<rparr>)"
    by (simp add: main_def loadKeystore_def os_Open_def fetchUserInfo_def call_eq emit_def Let_def
      demo_def demo_sys_def demo_JsonDecode_def alice_def)
  have c: "ToInt64 (demo demo_legacy demo_ledger carol) (IdentityNumber carol) = 0"
    "NewFromKeystore (demo demo_legacy demo_ledger alice) () = Inr (UserID alice)"
    by (simp_all add: demo_def carol_def alice_def)
  from receiver_validated_before_mutation
    [where c = "demo demo_legacy demo_ledger carol" and args = "[''carol'']"
       and path = "''keystore.json''" and L = 256 and s = demo_sys
       and msg = "''receiver is not a mixin messenger user''" and x = None
       and sf = "demo_sys\<lparr>trace := [OsOpen ''keystore.json'',
                                  CallHttpGet ''https://echo.yiplee.com/users/carol'']\<rparr>"]
    a
  have "\<exists>k s1 clientID user.
      loadKeystore (demo demo_legacy demo_ledger carol) ''keystore.json'' demo_sys = (Inr k, s1) \<and>
      NewFromKeystore (demo demo_legacy demo_ledger carol) (Embedded k) = Inr clientID \<and>
      fetchUserInfo (demo demo_legacy demo_ledger carol) (hd [''carol'']) s1
        = (Inr user, demo_sys\<lparr>trace := [OsOpen ''keystore.json'',
                                  CallHttpGet ''https://echo.yiplee.com/users/carol'']\<rparr>) \<and>
      ToInt64 (demo demo_legacy demo_ledger carol) (IdentityNumber user) = 0"
    by simp
  with a b c show ?thesis by simp
qed

end
